theory Spec2Isabelle
  imports Complex_Main "HOL-Library.Word"
begin

unbundle bit_operations_syntax

section \<open>Machine types and constants\<close>

type_synonym u8 = "8 word"
type_synonym u16 = "16 word"
type_synonym u32 = "32 word"
type_synonym u64 = "64 word"

text \<open>
  The header \<^verbatim>\<open>misc.h\<close> that defines the size macros is not part of the sources at hand.
  The comment above \<^verbatim>\<open>modeS_checksum_table\<close> in \<^verbatim>\<open>dump1090.c\<close> fixes the two message
  lengths: the table has 112 (\<^verbatim>\<open>MODES_LONG_MSG_BITS\<close>) elements, and messages of 56 bits use
  the last 56 of them.
\<close>

definition MODES_LONG_MSG_BITS :: nat where
  "MODES_LONG_MSG_BITS = 112"

definition MODES_SHORT_MSG_BITS :: nat where
  "MODES_SHORT_MSG_BITS = 56"

section \<open>CRC engine (\<^verbatim>\<open>dump1090.c\<close>)\<close>

definition modeS_checksum_table :: "u32 list" where
  "modeS_checksum_table =
    [0x3935EA, 0x1C9AF5, 0xF1B77E, 0x78DBBF, 0xC397DB, 0x9E31E9, 0xB0E2F0, 0x587178,
     0x2C38BC, 0x161C5E, 0x0B0E2F, 0xFA7D13, 0x82C48D, 0xBE9842, 0x5F4C21, 0xD05C14,
     0x682E0A, 0x341705, 0xE5F186, 0x72F8C3, 0xC68665, 0x9CB936, 0x4E5C9B, 0xD8D449,
     0x939020, 0x49C810, 0x24E408, 0x127204, 0x093902, 0x049C81, 0xFDB444, 0x7EDA22,
     0x3F6D11, 0xE04C8C, 0x702646, 0x381323, 0xE3F395, 0x8E03CE, 0x4701E7, 0xDC7AF7,
     0x91C77F, 0xB719BB, 0xA476D9, 0xADC168, 0x56E0B4, 0x2B705A, 0x15B82D, 0xF52612,
     0x7A9309, 0xC2B380, 0x6159C0, 0x30ACE0, 0x185670, 0x0C2B38, 0x06159C, 0x030ACE,
     0x018567, 0xFF38B7, 0x80665F, 0xBFC92B, 0xA01E91, 0xAFF54C, 0x57FAA6, 0x2BFD53,
     0xEA04AD, 0x8AF852, 0x457C29, 0xDD4410, 0x6EA208, 0x375104, 0x1BA882, 0x0DD441,
     0xF91024, 0x7C8812, 0x3E4409, 0xE0D800, 0x706C00, 0x383600, 0x1C1B00, 0x0E0D80,
     0x0706C0, 0x038360, 0x01C1B0, 0x00E0D8, 0x00706C, 0x003836, 0x001C1B, 0xFFF409,
     0x000000, 0x000000, 0x000000, 0x000000, 0x000000, 0x000000, 0x000000, 0x000000,
     0x000000, 0x000000, 0x000000, 0x000000, 0x000000, 0x000000, 0x000000, 0x000000,
     0x000000, 0x000000, 0x000000, 0x000000, 0x000000, 0x000000, 0x000000, 0x000000]"

text \<open>The test \<^verbatim>\<open>msg[j / 8] & (1 << (7 - j % 8))\<close> of the checksum loop.\<close>

definition bitmask :: "nat \<Rightarrow> u8" where
  "bitmask j = push_bit (7 - j mod 8) 1"

definition msg_bit_set :: "u8 list \<Rightarrow> nat \<Rightarrow> bool" where
  "msg_bit_set msg j \<longleftrightarrow> msg ! (j div 8) AND bitmask j \<noteq> 0"

text \<open>The body of the \<^verbatim>\<open>for (j = 0; j < bits; j++)\<close> loop, run over the indices in order.\<close>

primrec checksum_loop :: "u8 list \<Rightarrow> nat \<Rightarrow> nat list \<Rightarrow> u32 \<Rightarrow> u32" where
  "checksum_loop msg offset [] crc = crc"
| "checksum_loop msg offset (j # js) crc =
     checksum_loop msg offset js
       (if msg_bit_set msg j then crc XOR modeS_checksum_table ! (j + offset) else crc)"

definition modeS_checksum :: "u8 list \<Rightarrow> nat \<Rightarrow> u32" where
  "modeS_checksum msg bits =
     (let offset = (if bits \<noteq> MODES_LONG_MSG_BITS
                    then MODES_LONG_MSG_BITS - MODES_SHORT_MSG_BITS else 0)
      in checksum_loop msg offset [0..<bits] 0)"

definition modeS_message_len_by_type :: "nat \<Rightarrow> nat" where
  "modeS_message_len_by_type type =
     (if type = 16 \<or> type = 17 \<or> type = 19 \<or> type = 20 \<or> type = 21
      then MODES_LONG_MSG_BITS else MODES_SHORT_MSG_BITS)"

text \<open>
  The trailing 24 bits of a message read as a big-endian number: the expression
  \<^verbatim>\<open>((uint32_t)msg[bits/8-3] << 16) | ((uint32_t)msg[bits/8-2] << 8) | (uint32_t)msg[bits/8-1]\<close> that
  \<^verbatim>\<open>decode_modeS_message\<close> and both bit fixers compare the computed checksum with.
\<close>

definition be24 :: "u8 \<Rightarrow> u8 \<Rightarrow> u8 \<Rightarrow> u32" where
  "be24 a b c = push_bit 16 (ucast a) OR push_bit 8 (ucast b) OR ucast c"

definition crc_field :: "u8 list \<Rightarrow> nat \<Rightarrow> u32" where
  "crc_field msg bits =
     be24 (msg ! (bits div 8 - 3)) (msg ! (bits div 8 - 2)) (msg ! (bits div 8 - 1))"

text \<open>The check \<^verbatim>\<open>mm->CRC == crc2\<close> of the decoder.\<close>

definition crc_check :: "u8 list \<Rightarrow> nat \<Rightarrow> bool" where
  "crc_check msg bits \<longleftrightarrow> crc_field msg bits = modeS_checksum msg bits"

text \<open>
  Writing a 24-bit value into the trailing three bytes, most significant byte first; the
  inverse of \<^const>\<open>crc_field\<close>, as a transmitter does to seal a frame.
\<close>

definition store_crc :: "u8 list \<Rightarrow> nat \<Rightarrow> u32 \<Rightarrow> u8 list" where
  "store_crc msg bits crc =
     msg[bits div 8 - 3 := ucast (drop_bit 16 crc),
         bits div 8 - 2 := ucast (drop_bit 8 crc),
         bits div 8 - 1 := ucast crc]"

text \<open>
  \<^verbatim>\<open>aux[byte] ^= bitmask\<close> on the copy \<^verbatim>\<open>aux\<close> of the first \<^verbatim>\<open>bits/8\<close> bytes of the message.
\<close>

definition flip_bit_copy :: "u8 list \<Rightarrow> nat \<Rightarrow> u8 list" where
  "flip_bit_copy aux i = aux[i div 8 := aux ! (i div 8) XOR bitmask i]"

text \<open>
  \<^verbatim>\<open>fix_single_bit_errors\<close>: the loop over \<^verbatim>\<open>i\<close> returns at the first bit whose flip makes
  the checksum match, after copying the flipped bytes back over the message; \<^verbatim>\<open>-1\<close> and
  the untouched message otherwise.
\<close>

primrec fix_single_loop :: "u8 list \<Rightarrow> nat \<Rightarrow> nat list \<Rightarrow> int \<times> u8 list" where
  "fix_single_loop msg bits [] = (-1, msg)"
| "fix_single_loop msg bits (i # is) =
     (let aux = flip_bit_copy (take (bits div 8) msg) i;
          crc1 = crc_field aux bits;
          crc2 = modeS_checksum aux bits
      in if crc1 = crc2 then (int i, aux @ drop (bits div 8) msg)
         else fix_single_loop msg bits is)"

definition fix_single_bit_errors :: "u8 list \<Rightarrow> nat \<Rightarrow> int \<times> u8 list" where
  "fix_single_bit_errors msg bits = fix_single_loop msg bits [0..<bits]"

text \<open>
  What flipping bit \<open>k\<close> of a message of \<open>bits\<close> bits does to the difference (XOR) of its
  checksum field and its computed checksum: a data bit contributes its parity-table entry,
  a bit of the checksum field contributes itself.
\<close>

definition flip_syndrome :: "nat \<Rightarrow> nat \<Rightarrow> u32" where
  "flip_syndrome bits k =
     (if k < bits - 24 then modeS_checksum_table ! (k + (112 - bits))
      else push_bit (bits - 1 - k) 1)"

section \<open>Recently seen ICAO addresses (\<^verbatim>\<open>dump1090.c\<close>)\<close>

text \<open>
  The macros \<^verbatim>\<open>MODES_ICAO_CACHE_LEN\<close> (the number of slots, a power of two by the comment
  above the hash function) and \<^verbatim>\<open>MODES_ICAO_CACHE_TTL\<close> (seconds) are defined in the absent
  \<^verbatim>\<open>misc.h\<close>; the functions that use them take their values as a parameter.
\<close>

record macros =
  ICAO_CACHE_LEN :: nat
  ICAO_CACHE_TTL :: int

definition ICAO_cache_hash_address :: "macros \<Rightarrow> u32 \<Rightarrow> u32" where
  "ICAO_cache_hash_address M a0 =
     (let a1 = (drop_bit 16 a0 XOR a0) * 0x45D9F3B;
          a2 = (drop_bit 16 a1 XOR a1) * 0x45D9F3B;
          a3 = drop_bit 16 a2 XOR a2
      in a3 AND (word_of_nat (ICAO_CACHE_LEN M) - 1))"

text \<open>
  The cache is the array \<^verbatim>\<open>Modes.ICAO_cache\<close> of \<open>2 * MODES_ICAO_CACHE_LEN\<close> 32-bit cells:
  the address at \<open>2 * h\<close>, the time in seconds at \<open>2 * h + 1\<close>. The result of
  \<^verbatim>\<open>time (NULL)\<close> is the argument \<open>now\<close>, a 64-bit \<^verbatim>\<open>time_t\<close> read as an integer.
\<close>

definition ICAO_cache_add_address :: "macros \<Rightarrow> u32 list \<Rightarrow> u32 \<Rightarrow> int \<Rightarrow> u32 list" where
  "ICAO_cache_add_address M cache addr now =
     (let h = ICAO_cache_hash_address M addr
      in cache[unat (h * 2) := addr, unat (h * 2 + 1) := word_of_int now])"

definition ICAO_address_recently_seen :: "macros \<Rightarrow> u32 list \<Rightarrow> u32 \<Rightarrow> int \<Rightarrow> bool" where
  "ICAO_address_recently_seen M cache addr now =
     (let h_idx = ICAO_cache_hash_address M addr;
          addr' = cache ! unat (2 * h_idx);
          seen = cache ! unat (2 * h_idx + 1)
      in addr' \<noteq> 0 \<and> addr' = addr \<and> now - uint seen \<le> ICAO_CACHE_TTL M)"

text \<open>
  The round function of the data model's description of the hash,
  \<^verbatim>\<open>((x >> 16) ^ x) * 0x45D9F3B\<close>, as a function of its own.
\<close>

definition hash_round :: "u32 \<Rightarrow> u32" where
  "hash_round x = (drop_bit 16 x XOR x) * 0x45D9F3B"

section \<open>Message decoder (\<^verbatim>\<open>dump1090.c\<close>)\<close>

text \<open>
  Modelled from the spec: \<^verbatim>\<open>aircraft_get_addr\<close> is declared in \<^verbatim>\<open>aircraft.h\<close> and defined in the
  absent \<^verbatim>\<open>aircraft.c\<close>. The ICAO address is the three bytes \<^verbatim>\<open>msg[1..=3]\<close>, big-endian.
\<close>

definition aircraft_get_addr :: "u8 \<Rightarrow> u8 \<Rightarrow> u8 \<Rightarrow> u32" where
  "aircraft_get_addr a0 a1 a2 = be24 a0 a1 a2"

text \<open>
  \<^verbatim>\<open>fix_two_bits_errors\<close>: the inner loop over \<^verbatim>\<open>i\<close> from \<^verbatim>\<open>j + 1\<close>, the outer loop over
  \<^verbatim>\<open>j\<close>; the first pair whose flips make the checksum match is returned as
  \<^verbatim>\<open>j | (i << 8)\<close>, with the flipped bytes copied back.
\<close>

primrec fix_two_inner :: "u8 list \<Rightarrow> nat \<Rightarrow> nat \<Rightarrow> nat list \<Rightarrow> (int \<times> u8 list) option" where
  "fix_two_inner msg bits j [] = None"
| "fix_two_inner msg bits j (i # is) =
     (let aux = flip_bit_copy (flip_bit_copy (take (bits div 8) msg) j) i;
          crc1 = crc_field aux bits;
          crc2 = modeS_checksum aux bits
      in if crc1 = crc2
         then Some (uint ((word_of_nat j :: u32) OR push_bit 8 (word_of_nat i)),
                    aux @ drop (bits div 8) msg)
         else fix_two_inner msg bits j is)"

primrec fix_two_outer :: "u8 list \<Rightarrow> nat \<Rightarrow> nat list \<Rightarrow> int \<times> u8 list" where
  "fix_two_outer msg bits [] = (-1, msg)"
| "fix_two_outer msg bits (j # js) =
     (case fix_two_inner msg bits j [j + 1..<bits] of
        Some r \<Rightarrow> r
      | None \<Rightarrow> fix_two_outer msg bits js)"

definition fix_two_bits_errors :: "u8 list \<Rightarrow> nat \<Rightarrow> int \<times> u8 list" where
  "fix_two_bits_errors msg bits = fix_two_outer msg bits [0..<bits]"

datatype metric_unit_t = MODES_UNIT_FEET | MODES_UNIT_METERS

text \<open>
  The fields of \<^verbatim>\<open>modeS_message\<close> that the decoder fills with integer arithmetic. The struct
  is declared in the absent \<^verbatim>\<open>misc.h\<close>; the fields are those the decoder assigns. The
  velocity fields of ME type 19 (set with \<^verbatim>\<open>hypot\<close> and \<^verbatim>\<open>atan2\<close> on doubles) and the signal
  level are left out: nothing below reads them.
\<close>

record modeS_message =
  msg :: "u8 list"
  msg_bits :: nat
  msg_type :: nat
  CRC_ok :: bool
  CRC :: u32
  error_bit :: int
  AA :: "u8 list"
  phase_corrected :: bool
  ca :: nat
  ME_type :: nat
  ME_subtype :: nat
  flight_status :: nat
  DR_status :: nat
  UM_status :: nat
  identity :: nat
  altitude :: int
  unit :: metric_unit_t
  aircraft_type :: nat
  flight :: string
  odd_flag :: nat
  UTC_flag :: nat
  raw_latitude :: nat
  raw_longitude :: nat

text \<open>A byte of the message promoted to \<^verbatim>\<open>int\<close>, as C does before \<^verbatim>\<open>&\<close>, \<^verbatim>\<open>|\<close> and shifts.\<close>

definition byte_at :: "u8 list \<Rightarrow> nat \<Rightarrow> u32" where
  "byte_at m k = ucast (m ! k)"

definition decode_AC13_field :: "u8 list \<Rightarrow> metric_unit_t \<Rightarrow> int \<times> metric_unit_t" where
  "decode_AC13_field m u =
     (let m_bit = byte_at m 3 AND push_bit 6 1;
          q_bit = byte_at m 3 AND push_bit 4 1
      in if m_bit = 0
         then (if q_bit \<noteq> 0
               then (let n = push_bit 6 (byte_at m 2 AND 31) OR
                             drop_bit 2 (byte_at m 3 AND 0x80) OR
                             drop_bit 1 (byte_at m 3 AND 0x20) OR
                             (byte_at m 3 AND 15);
                         ret = 25 * uint n - 1000
                     in (if ret < 0 then 0 else ret, MODES_UNIT_FEET))
               else (0, MODES_UNIT_FEET))
         else (0, MODES_UNIT_METERS))"

definition decode_AC12_field :: "u8 list \<Rightarrow> metric_unit_t \<Rightarrow> int \<times> metric_unit_t" where
  "decode_AC12_field m u =
     (let q_bit = byte_at m 5 AND 1
      in if q_bit \<noteq> 0
         then (let n = push_bit 4 (drop_bit 1 (byte_at m 5)) OR drop_bit 4 (byte_at m 6 AND 0xF0);
                   ret = 25 * uint n - 1000
               in (if ret < 0 then 0 else ret, MODES_UNIT_FEET))
         else (0, u))"

definition AIS_charset :: string where
  "AIS_charset = ''?ABCDEFGHIJKLMNOPQRSTUVWXYZ????? ???????????????0123456789??????''"

definition NUL :: char where
  "NUL = CHR 0x00"

text \<open>
  The part of \<^verbatim>\<open>Modes\<close> the decoder reads and writes: the \<^verbatim>\<open>--aggressive\<close> flag and the
  address cache.
\<close>

record global_data =
  aggressive :: bool
  ICAO_cache :: "u32 list"

text \<open>
  \<^verbatim>\<open>brute_force_AP\<close>: for the formats whose checksum is XORed with the address, recover the
  address from a copy of the message and look it up in the cache.
\<close>

definition brute_force_AP ::
  "macros \<Rightarrow> u32 list \<Rightarrow> int \<Rightarrow> u8 list \<Rightarrow> modeS_message \<Rightarrow> bool \<times> modeS_message" where
  "brute_force_AP M cache now m mm =
     (let t = msg_type mm; bits = msg_bits mm
      in if t = 0 \<or> t = 4 \<or> t = 5 \<or> t = 16 \<or> t = 20 \<or> t = 21 \<or> t = 24
         then (let last_byte = bits div 8 - 1;
                   aux0 = take (bits div 8) m;
                   crc = modeS_checksum aux0 bits;
                   aux1 = aux0[last_byte := aux0 ! last_byte XOR ucast (crc AND 0xFF)];
                   aux2 = aux1[last_byte - 1 := aux1 ! (last_byte - 1) XOR ucast (drop_bit 8 crc AND 0xFF)];
                   aux3 = aux2[last_byte - 2 := aux2 ! (last_byte - 2) XOR ucast (drop_bit 16 crc AND 0xFF)];
                   addr = aircraft_get_addr (aux3 ! (last_byte - 2)) (aux3 ! (last_byte - 1)) (aux3 ! last_byte)
               in if ICAO_address_recently_seen M cache addr now
                  then (True, mm\<lparr>AA := [aux3 ! (last_byte - 2), aux3 ! (last_byte - 1), aux3 ! last_byte]\<rparr>)
                  else (False, mm))
         else (False, mm))"

text \<open>
  The checksum stage of \<^verbatim>\<open>decode_modeS_message\<close>: the check itself, then for DF11 and DF17
  the single-bit fix and, in aggressive mode and for DF17 only, the two-bit fix. It yields
  \<^verbatim>\<open>error_bit\<close>, the possibly rewritten message, \<^verbatim>\<open>CRC\<close> and \<^verbatim>\<open>CRC_ok\<close>.
\<close>

definition crc_stage :: "bool \<Rightarrow> u8 list \<Rightarrow> nat \<Rightarrow> nat \<Rightarrow> int \<times> u8 list \<times> u32 \<times> bool" where
  "crc_stage aggr m t bits =
     (let crc0 = crc_field m bits;
          crc2 = modeS_checksum m bits;
          ok0 = (crc0 = crc2)
      in if \<not> ok0 \<and> (t = 11 \<or> t = 17)
         then (case fix_single_bit_errors m bits of
                 (e1, m1) \<Rightarrow>
                   if e1 \<noteq> -1 then (e1, m1, modeS_checksum m1 bits, True)
                   else if aggr \<and> t = 17
                        then (case fix_two_bits_errors m1 bits of
                                (e2, m2) \<Rightarrow>
                                  if e2 \<noteq> -1 then (e2, m2, modeS_checksum m2 bits, True)
                                  else (e2, m2, crc0, False))
                        else (e1, m1, crc0, False))
         else (-1, m, crc0, ok0))"

text \<open>The identity (squawk) digits, bits interleaved as C1-A1-C2-A2-C4-A4-ZERO-B1-D1-B2-D2-B4-D4.\<close>

definition decode_identity :: "u8 list \<Rightarrow> nat" where
  "decode_identity m =
     (let a = drop_bit 5 (byte_at m 3 AND 0x80) OR
              drop_bit 0 (byte_at m 2 AND 0x02) OR
              drop_bit 3 (byte_at m 2 AND 0x08);
          b = push_bit 1 (byte_at m 3 AND 0x02) OR
              drop_bit 2 (byte_at m 3 AND 0x08) OR
              drop_bit 5 (byte_at m 3 AND 0x20);
          c = push_bit 2 (byte_at m 2 AND 0x01) OR
              drop_bit 1 (byte_at m 2 AND 0x04) OR
              drop_bit 4 (byte_at m 2 AND 0x10);
          d = push_bit 2 (byte_at m 3 AND 0x01) OR
              drop_bit 1 (byte_at m 3 AND 0x04) OR
              drop_bit 4 (byte_at m 3 AND 0x10)
      in unat (a * 1000 + b * 100 + c * 10 + d))"

text \<open>The eight characters of the callsign and the terminating NUL (ME types 1 to 4).\<close>

definition decode_flight :: "u8 list \<Rightarrow> string" where
  "decode_flight m =
     [AIS_charset ! unat (drop_bit 2 (byte_at m 5)),
      AIS_charset ! unat (push_bit 4 (byte_at m 5 AND 3) OR drop_bit 4 (byte_at m 6)),
      AIS_charset ! unat (push_bit 2 (byte_at m 6 AND 15) OR drop_bit 6 (byte_at m 7)),
      AIS_charset ! unat (byte_at m 7 AND 63),
      AIS_charset ! unat (drop_bit 2 (byte_at m 8)),
      AIS_charset ! unat (push_bit 4 (byte_at m 8 AND 3) OR drop_bit 4 (byte_at m 9)),
      AIS_charset ! unat (push_bit 2 (byte_at m 9 AND 15) OR drop_bit 6 (byte_at m 10)),
      AIS_charset ! unat (byte_at m 10 AND 63),
      NUL]"

text \<open>
  The extended squitter part of the decoder (DF17): identification for ME types 1 to 4,
  airborne position for ME types 9 to 18. The velocity branch (ME type 19) assigns only
  fields that are not part of the record.
\<close>

definition decode_extended_squitter :: "u8 list \<Rightarrow> modeS_message \<Rightarrow> modeS_message" where
  "decode_extended_squitter m mm =
     (if 1 \<le> ME_type mm \<and> ME_type mm \<le> 4
      then mm\<lparr>aircraft_type := ME_type mm - 1, flight := decode_flight m\<rparr>
      else if 9 \<le> ME_type mm \<and> ME_type mm \<le> 18
      then (case decode_AC12_field m (unit mm) of
              (alt, u) \<Rightarrow>
                mm\<lparr>odd_flag := unat (byte_at m 6 AND push_bit 2 1),
                   UTC_flag := unat (byte_at m 6 AND push_bit 3 1),
                   altitude := alt, unit := u,
                   raw_latitude := unat (push_bit 15 (byte_at m 6 AND 3) OR push_bit 7 (byte_at m 7) OR
                                         drop_bit 1 (byte_at m 8)),
                   raw_longitude := unat (push_bit 16 (byte_at m 8 AND 1) OR push_bit 8 (byte_at m 9) OR
                                          byte_at m 10)\<rparr>)
      else mm)"

text \<open>The message after \<^verbatim>\<open>memset (mm, '\0', sizeof(*mm))\<close>, with the local copy of the frame.\<close>

definition zero_message :: "u8 list \<Rightarrow> modeS_message" where
  "zero_message m =
     \<lparr>msg = m, msg_bits = 0, msg_type = 0, CRC_ok = False, CRC = 0, error_bit = 0,
      AA = [0, 0, 0], phase_corrected = False, ca = 0, ME_type = 0, ME_subtype = 0,
      flight_status = 0, DR_status = 0, UM_status = 0, identity = 0, altitude = 0,
      unit = MODES_UNIT_FEET, aircraft_type = 0, flight = replicate 9 NUL,
      odd_flag = 0, UTC_flag = 0, raw_latitude = 0, raw_longitude = 0\<rparr>"

text \<open>
  \<^verbatim>\<open>decode_modeS_message\<close> in the order of the source. First the fields read from the first
  bytes of the (possibly fixed) message: capability, address, ME type and subtype, flight
  status, DR, UM and the identity.
\<close>

definition header_fields ::
  "u8 list \<Rightarrow> nat \<Rightarrow> nat \<Rightarrow> u32 \<Rightarrow> int \<Rightarrow> bool \<Rightarrow> modeS_message" where
  "header_fields m t bits crc e ok =
     (zero_message m)
       \<lparr>msg_type := t, msg_bits := bits, CRC := crc, error_bit := e, CRC_ok := ok,
        ca := unat (byte_at m 0 AND 7),
        AA := [m ! 1, m ! 2, m ! 3],
        ME_type := unat (drop_bit 3 (byte_at m 4)),
        ME_subtype := unat (byte_at m 4 AND 7),
        flight_status := unat (byte_at m 0 AND 7),
        DR_status := unat (drop_bit 3 (byte_at m 1) AND 31),
        UM_status := unat (push_bit 3 (byte_at m 1 AND 7) OR drop_bit 5 (byte_at m 2)),
        identity := decode_identity m\<rparr>"

text \<open>
  Then the address whitelist: formats other than DF11 and DF17 are accepted only when the
  address recovered from the checksum field is in the cache; a DF11 or DF17 adds its address
  to the cache under the guard \<^verbatim>\<open>mm->CRC_ok && mm->error_bit == -1\<close>.
\<close>

definition address_stage ::
  "macros \<Rightarrow> global_data \<Rightarrow> int \<Rightarrow> u8 list \<Rightarrow> modeS_message \<Rightarrow> modeS_message \<times> global_data" where
  "address_stage M modes now m mm =
     (if msg_type mm \<noteq> 11 \<and> msg_type mm \<noteq> 17
      then (case brute_force_AP M (ICAO_cache modes) now m mm of
              (found, mm') \<Rightarrow> (mm'\<lparr>CRC_ok := found\<rparr>, modes))
      else if CRC_ok mm \<and> error_bit mm = -1
           then (mm, modes\<lparr>ICAO_cache :=
                   ICAO_cache_add_address M (ICAO_cache modes)
                     (aircraft_get_addr (AA mm ! 0) (AA mm ! 1) (AA mm ! 2)) now\<rparr>)
           else (mm, modes))"

text \<open>Then the 13-bit altitude of DF0, DF4, DF16 and DF20, and the extended squitter of DF17.\<close>

definition payload_fields :: "u8 list \<Rightarrow> modeS_message \<Rightarrow> modeS_message" where
  "payload_fields m mm =
     (let t = msg_type mm;
          mm' = (if t = 0 \<or> t = 4 \<or> t = 16 \<or> t = 20
                 then (case decode_AC13_field m (unit mm) of
                         (alt, u) \<Rightarrow> mm\<lparr>altitude := alt, unit := u\<rparr>)
                 else mm)
      in if t = 17 then decode_extended_squitter m mm' else mm')"

text \<open>
  The frame is the first 14 bytes of the caller's buffer. The result is the decoded message
  and \<^verbatim>\<open>Modes\<close> with the cache as the decoder leaves it; the C function's return value is
  the field \<^const>\<open>CRC_ok\<close>.
\<close>

definition decode_modeS_message ::
  "macros \<Rightarrow> global_data \<Rightarrow> int \<Rightarrow> u8 list \<Rightarrow> modeS_message \<times> global_data" where
  "decode_modeS_message M modes now frame =
     (let m0 = take 14 frame;
          t = unat (drop_bit 3 (m0 ! 0));
          bits = modeS_message_len_by_type t
      in case crc_stage (aggressive modes) m0 t bits of
           (e, m, crc, ok) \<Rightarrow>
             (case address_stage M modes now m (header_fields m t bits crc e ok) of
                (mm, modes') \<Rightarrow> ((payload_fields m mm)\<lparr>phase_corrected := False\<rparr>, modes')))"

section \<open>Aircraft tracker (\<^verbatim>\<open>interactive.c\<close>, \<^verbatim>\<open>misc.c\<close>)\<close>

datatype a_show_t = A_SHOW_FIRST_TIME | A_SHOW_LAST_TIME | A_SHOW_NORMAL | A_SHOW_NONE

text \<open>
  A position in degrees. The program computes positions in \<^verbatim>\<open>double\<close>; the model computes
  them in the real numbers, so it follows the arithmetic of the source exactly but not the
  rounding of IEEE 754. The decimal thresholds of the zone table are the decimal numbers
  written in the source.
\<close>

record pos_t =
  lon :: real
  lat :: real

text \<open>
  The fields of \<^verbatim>\<open>aircraft\<close> (\<^verbatim>\<open>aircraft.h\<close>) that \<^verbatim>\<open>interactive_receive_data\<close> and
  \<^verbatim>\<open>decode_CPR\<close> write from the fields of the message record above. The speed, the heading
  and the signal levels are copies of message fields that are not part of that record, and
  the distance and the estimated position are written by \<^verbatim>\<open>set_home_distance\<close> only.
\<close>

record aircraft =
  addr :: u32
  a_flight :: string
  a_altitude :: int
  seen_first :: u64
  seen_last :: u64
  messages :: u32
  a_identity :: nat
  a_show :: a_show_t
  odd_CPR_lat :: int
  odd_CPR_lon :: int
  even_CPR_lat :: int
  even_CPR_lon :: int
  odd_CPR_time :: u64
  even_CPR_time :: u64
  position :: pos_t

text \<open>
  \<^verbatim>\<open>CPR_mod_func\<close>: the remainder of C (\<^verbatim>\<open>%\<close> truncates towards zero, so its sign is that of
  \<open>a\<close>), made non-negative by adding \<open>b\<close>.
\<close>

definition c_rem :: "int \<Rightarrow> int \<Rightarrow> int" where
  "c_rem a b = sgn a * (\<bar>a\<bar> mod \<bar>b\<bar>)"

definition CPR_mod_func :: "int \<Rightarrow> int \<Rightarrow> int" where
  "CPR_mod_func a b = (let res = c_rem a b in if res < 0 then res + b else res)"

definition CPR_NL_func :: "real \<Rightarrow> int" where
  "CPR_NL_func x =
     (let l = (if x < 0 then - x else x) in
      if l < 1047047130 / 100000000 then 59 else
      if l < 1482817437 / 100000000 then 58 else
      if l < 1818626357 / 100000000 then 57 else
      if l < 2102939493 / 100000000 then 56 else
      if l < 2354504487 / 100000000 then 55 else
      if l < 2582924707 / 100000000 then 54 else
      if l < 2793898710 / 100000000 then 53 else
      if l < 2991135686 / 100000000 then 52 else
      if l < 3177209708 / 100000000 then 51 else
      if l < 3353993436 / 100000000 then 50 else
      if l < 3522899598 / 100000000 then 49 else
      if l < 3685025108 / 100000000 then 48 else
      if l < 3841241892 / 100000000 then 47 else
      if l < 3992256684 / 100000000 then 46 else
      if l < 4138651832 / 100000000 then 45 else
      if l < 4280914012 / 100000000 then 44 else
      if l < 4419454951 / 100000000 then 43 else
      if l < 4554626723 / 100000000 then 42 else
      if l < 4686733252 / 100000000 then 41 else
      if l < 4816039128 / 100000000 then 40 else
      if l < 4942776439 / 100000000 then 39 else
      if l < 5067150166 / 100000000 then 38 else
      if l < 5189342469 / 100000000 then 37 else
      if l < 5309516153 / 100000000 then 36 else
      if l < 5427817472 / 100000000 then 35 else
      if l < 5544378444 / 100000000 then 34 else
      if l < 5659318756 / 100000000 then 33 else
      if l < 5772747354 / 100000000 then 32 else
      if l < 5884763776 / 100000000 then 31 else
      if l < 5995459277 / 100000000 then 30 else
      if l < 6104917774 / 100000000 then 29 else
      if l < 6213216659 / 100000000 then 28 else
      if l < 6320427479 / 100000000 then 27 else
      if l < 6426616523 / 100000000 then 26 else
      if l < 6531845310 / 100000000 then 25 else
      if l < 6636171008 / 100000000 then 24 else
      if l < 6739646774 / 100000000 then 23 else
      if l < 6842322022 / 100000000 then 22 else
      if l < 6944242631 / 100000000 then 21 else
      if l < 7045451075 / 100000000 then 20 else
      if l < 7145986473 / 100000000 then 19 else
      if l < 7245884545 / 100000000 then 18 else
      if l < 7345177442 / 100000000 then 17 else
      if l < 7443893416 / 100000000 then 16 else
      if l < 7542056257 / 100000000 then 15 else
      if l < 7639684391 / 100000000 then 14 else
      if l < 7736789461 / 100000000 then 13 else
      if l < 7833374083 / 100000000 then 12 else
      if l < 7929428225 / 100000000 then 11 else
      if l < 8024923213 / 100000000 then 10 else
      if l < 8119801349 / 100000000 then 9 else
      if l < 8213956981 / 100000000 then 8 else
      if l < 8307199445 / 100000000 then 7 else
      if l < 8399173563 / 100000000 then 6 else
      if l < 8489166191 / 100000000 then 5 else
      if l < 8575541621 / 100000000 then 4 else
      if l < 8653536998 / 100000000 then 3 else
      if l < 8700000000 / 100000000 then 2 else
      1)"

definition CPR_N_func :: "real \<Rightarrow> int \<Rightarrow> int" where
  "CPR_N_func x is_odd = (let nl = CPR_NL_func x - is_odd in if nl < 1 then 1 else nl)"

definition CPR_Dlong_func :: "real \<Rightarrow> int \<Rightarrow> real" where
  "CPR_Dlong_func x is_odd = 360 / of_int (CPR_N_func x is_odd)"

text \<open>
  The latitude index \<open>j\<close> and the two candidate latitudes \<open>rlat0\<close> (from the even fix)
  and \<open>rlat1\<close> (from the odd fix) of \<^verbatim>\<open>decode_CPR\<close>, after the reduction by 360 degrees.
\<close>

definition cpr_j :: "aircraft \<Rightarrow> int" where
  "cpr_j a = \<lfloor>(59 * of_int (even_CPR_lat a) - 60 * of_int (odd_CPR_lat a)) / 131072 + 1 / 2 :: real\<rfloor>"

definition cpr_rlat0 :: "aircraft \<Rightarrow> real" where
  "cpr_rlat0 a =
     (let r = (360 / 60) * (of_int (CPR_mod_func (cpr_j a) 60) + of_int (even_CPR_lat a) / 131072)
      in if r \<ge> 270 then r - 360 else r)"

definition cpr_rlat1 :: "aircraft \<Rightarrow> real" where
  "cpr_rlat1 a =
     (let r = (360 / 59) * (of_int (CPR_mod_func (cpr_j a) 59) + of_int (odd_CPR_lat a) / 131072)
      in if r \<ge> 270 then r - 360 else r)"

text \<open>
  \<^verbatim>\<open>decode_CPR\<close>: nothing is written when the two latitudes lie in different zones;
  otherwise the position is computed from the fix received last. The call of
  \<^verbatim>\<open>set_home_distance\<close> at the end writes no field of the record.
\<close>

definition decode_CPR :: "aircraft \<Rightarrow> aircraft" where
  "decode_CPR a =
     (let lon0 = of_int (even_CPR_lon a) :: real;
          lon1 = of_int (odd_CPR_lon a) :: real;
          rlat0 = cpr_rlat0 a;
          rlat1 = cpr_rlat1 a
      in if CPR_NL_func rlat0 \<noteq> CPR_NL_func rlat1 then a
         else (let p = (if unat (even_CPR_time a) > unat (odd_CPR_time a)
                        then (let ni = CPR_N_func rlat0 0;
                                  m = \<lfloor>(lon0 * of_int (CPR_NL_func rlat0 - 1) -
                                        lon1 * of_int (CPR_NL_func rlat0)) / 131072 + 1 / 2\<rfloor>
                              in \<lparr>lon = CPR_Dlong_func rlat0 0 *
                                         (of_int (CPR_mod_func m ni) + lon0 / 131072),
                                  lat = rlat0\<rparr>)
                        else (let ni = CPR_N_func rlat1 1;
                                  m = \<lfloor>(lon0 * of_int (CPR_NL_func rlat1 - 1) -
                                        lon1 * of_int (CPR_NL_func rlat1)) / 131072 + 1 / 2\<rfloor>
                              in \<lparr>lon = CPR_Dlong_func rlat1 1 *
                                         (of_int (CPR_mod_func m ni) + lon1 / 131072),
                                  lat = rlat1\<rparr>))
               in a\<lparr>position := (if lon p > 180 then p\<lparr>lon := lon p - 360\<rparr> else p)\<rparr>))"

text \<open>
  The loop \<^verbatim>\<open>while (*p == ' ') *p-- = '\\0';\<close> with \<open>p\<close> an index into the flight field.
  At index 0 the loop of the source would go on below the array; the model stops there.
\<close>

fun remove_trailing_spaces :: "nat \<Rightarrow> string \<Rightarrow> string" where
  "remove_trailing_spaces 0 s = (if s ! 0 = CHR '' '' then s[0 := NUL] else s)"
| "remove_trailing_spaces (Suc p) s =
     (if s ! Suc p = CHR '' '' then remove_trailing_spaces p (s[Suc p := NUL]) else s)"

text \<open>
  The airborne position branch: store the raw fix on its side, then decode when the two
  times are at most \<^verbatim>\<open>60*10*1000\<close> milliseconds apart
  (\<^verbatim>\<open>llabs ((int64_t) (a->even_CPR_time - a->odd_CPR_time))\<close>).
\<close>

definition receive_position :: "modeS_message \<Rightarrow> u64 \<Rightarrow> aircraft \<Rightarrow> aircraft" where
  "receive_position mm now a =
     (let a1 = a\<lparr>a_altitude := altitude mm\<rparr>;
          a2 = (if odd_flag mm \<noteq> 0
                then a1\<lparr>odd_CPR_lat := int (raw_latitude mm),
                        odd_CPR_lon := int (raw_longitude mm),
                        odd_CPR_time := now\<rparr>
                else a1\<lparr>even_CPR_lat := int (raw_latitude mm),
                        even_CPR_lon := int (raw_longitude mm),
                        even_CPR_time := now\<rparr>);
          t_diff = sint (even_CPR_time a2 - odd_CPR_time a2)
      in if \<bar>t_diff\<bar> \<le> 60 * 10 * 1000 then decode_CPR a2 else a2)"

text \<open>
  \<^verbatim>\<open>interactive_receive_data\<close>. The record that \<^verbatim>\<open>aircraft_find_or_create\<close> (defined in the
  absent \<^verbatim>\<open>aircraft.c\<close>) returns for the address of the message is the argument \<open>found\<close>,
  \<open>None\<close> for \<^verbatim>\<open>NULL\<close>; the result is the record as the function leaves it, \<open>None\<close>
  where it returns \<^verbatim>\<open>NULL\<close>.
\<close>

definition interactive_receive_data ::
  "modeS_message \<Rightarrow> u64 \<Rightarrow> aircraft option \<Rightarrow> aircraft option" where
  "interactive_receive_data mm now found =
     (if \<not> CRC_ok mm then None
      else case found of
        None \<Rightarrow> None
      | Some a \<Rightarrow>
          (let a1 = a\<lparr>seen_last := now, messages := messages a + 1\<rparr>;
               a2 = (if msg_type mm = 5 \<or> msg_type mm = 21
                     then (if identity mm \<noteq> 0 then a1\<lparr>a_identity := identity mm\<rparr>
                           else a1\<lparr>a_identity := 0\<rparr>)
                     else a1)
           in Some
             (if msg_type mm = 0 \<or> msg_type mm = 4 \<or> msg_type mm = 20
              then a2\<lparr>a_altitude := altitude mm\<rparr>
              else if msg_type mm = 17
              then (if 1 \<le> ME_type mm \<and> ME_type mm \<le> 4
                    then a2\<lparr>a_flight := remove_trailing_spaces 8 (take 9 (flight mm))\<rparr>
                    else if (9 \<le> ME_type mm \<and> ME_type mm \<le> 18) \<or>
                            (20 \<le> ME_type mm \<and> ME_type mm \<le> 22)
                    then receive_position mm now a2
                    else a2)
              else a2)))"

text \<open>
  Modelled from the spec: \<^verbatim>\<open>aircraft_find_or_create\<close> is defined in the absent
  \<^verbatim>\<open>aircraft.c\<close>. A record created for an address has \<open>seen_first = seen_last = now\<close>,
  message count 0 and show-state \<open>first-time\<close>; every other field is taken to be zero.
\<close>

definition new_aircraft :: "u32 \<Rightarrow> u64 \<Rightarrow> aircraft" where
  "new_aircraft a now =
     \<lparr>addr = a, a_flight = replicate 9 NUL, a_altitude = 0, seen_first = now, seen_last = now,
      messages = 0, a_identity = 0, a_show = A_SHOW_FIRST_TIME,
      odd_CPR_lat = 0, odd_CPR_lon = 0, even_CPR_lat = 0, even_CPR_lon = 0,
      odd_CPR_time = 0, even_CPR_time = 0, position = \<lparr>lon = 0, lat = 0\<rparr>\<rparr>"

text \<open>The text of a C string: the characters before the first NUL.\<close>

definition c_string :: "string \<Rightarrow> string" where
  "c_string s = takeWhile (\<lambda>c. c \<noteq> NUL) s"

text \<open>A text with its trailing spaces removed.\<close>

definition rstrip :: "string \<Rightarrow> string" where
  "rstrip s = rev (dropWhile (\<lambda>c. c = CHR '' '') (rev s))"

section \<open>Demodulator (\<^verbatim>\<open>dump1090.c\<close>)\<close>

text \<open>
  Modelled from the spec: \<^verbatim>\<open>MODES_PREAMBLE_US\<close> is a macro of the absent \<^verbatim>\<open>misc.h\<close>. The
  preamble is the 8-microsecond header of every frame, 16 samples at 2 MS/s; the source
  agrees where it skips the preamble with the literal \<^verbatim>\<open>m += 16\<close> in
  \<^verbatim>\<open>apply_phase_correction\<close> and with \<^verbatim>\<open>2*MODES_PREAMBLE_US\<close> in \<^verbatim>\<open>detect_modeS\<close>.
\<close>

definition MODES_PREAMBLE_US :: nat where
  "MODES_PREAMBLE_US = 8"

text \<open>A magnitude sample promoted to \<^verbatim>\<open>int\<close>.\<close>

definition sample :: "u16 list \<Rightarrow> nat \<Rightarrow> int" where
  "sample m k = uint (m ! k)"

text \<open>
  \<^verbatim>\<open>detect_out_of_phase (m + j)\<close>; it reads \<^verbatim>\<open>m[j - 1]\<close>, and the caller calls it for
  \<open>j > 0\<close> only. The divisions are divisions of non-negative integers.
\<close>

definition detect_out_of_phase :: "u16 list \<Rightarrow> nat \<Rightarrow> int" where
  "detect_out_of_phase m j =
     (if sample m (j + 3) > sample m (j + 2) div 3 then 1
      else if sample m (j + 10) > sample m (j + 9) div 3 then 1
      else if sample m (j + 6) > sample m (j + 7) div 3 then -1
      else if sample m (j - 1) > sample m (j + 1) div 3 then -1
      else 0)"

text \<open>
  \<^verbatim>\<open>apply_phase_correction (m + j)\<close>: after the 16 samples of the preamble, for every bit but
  the last, the first sample of the next bit is scaled by 5/4 after a one and by 4/5 after
  a zero, and stored back as a 16-bit value. Each step reads what the step before wrote.
\<close>

primrec phase_loop :: "nat \<Rightarrow> nat list \<Rightarrow> u16 list \<Rightarrow> u16 list" where
  "phase_loop base [] m = m"
| "phase_loop base (k # ks) m =
     phase_loop base ks
       (if sample m (base + k) > sample m (base + k + 1)
        then m[base + k + 2 := word_of_int (sample m (base + k + 2) * 5 div 4)]
        else m[base + k + 2 := word_of_int (sample m (base + k + 2) * 4 div 5)])"

definition apply_phase_correction :: "u16 list \<Rightarrow> nat \<Rightarrow> u16 list" where
  "apply_phase_correction m j =
     phase_loop (j + 16) (map (\<lambda>i. 2 * i) [0..<MODES_LONG_MSG_BITS - 1]) m"

text \<open>The two preamble tests of \<^verbatim>\<open>detect_modeS\<close> at the candidate \<open>j\<close>.\<close>

definition preamble_shape :: "u16 list \<Rightarrow> nat \<Rightarrow> bool" where
  "preamble_shape m j \<longleftrightarrow>
     sample m j > sample m (j + 1) \<and>
     sample m (j + 1) < sample m (j + 2) \<and>
     sample m (j + 2) > sample m (j + 3) \<and>
     sample m (j + 3) < sample m j \<and>
     sample m (j + 4) < sample m j \<and>
     sample m (j + 5) < sample m j \<and>
     sample m (j + 6) < sample m j \<and>
     sample m (j + 7) > sample m (j + 8) \<and>
     sample m (j + 8) < sample m (j + 9) \<and>
     sample m (j + 9) > sample m (j + 6)"

definition preamble_quiet :: "u16 list \<Rightarrow> nat \<Rightarrow> bool" where
  "preamble_quiet m j \<longleftrightarrow>
     (let high = (sample m j + sample m (j + 2) + sample m (j + 7) + sample m (j + 9)) div 6
      in \<not> (sample m (j + 4) \<ge> high \<or> sample m (j + 5) \<ge> high) \<and>
         \<not> (sample m (j + 11) \<ge> high \<or> sample m (j + 12) \<ge> high \<or>
            sample m (j + 13) \<ge> high \<or> sample m (j + 14) \<ge> high))"

text \<open>
  The bit slicer. One step, for the sample index \<open>i\<close> (even, two samples a bit): the value
  written to \<^verbatim>\<open>bits[i/2]\<close>, and whether the step is the one marked \<^verbatim>\<open>/* error */\<close> in the
  source. The branches are in the order of the source.
\<close>

definition slice_bit :: "nat \<Rightarrow> int \<Rightarrow> int \<Rightarrow> u8 \<Rightarrow> u8 \<times> bool" where
  "slice_bit i low high prev =
     (let delta = (if low - high < 0 then - (low - high) else low - high)
      in if i > 0 \<and> delta < 256 then (prev, False)
         else if low = high then (2, True)
         else if low > high then (1, False)
         else (0, False))"

text \<open>
  The loop over the 112 bits; \<open>k\<close> is \<^verbatim>\<open>i/2\<close>, and the pair carried along is the array
  \<^verbatim>\<open>bits\<close> and the counter \<^verbatim>\<open>errors\<close>. An error counts when it falls into the first 56 bits
  (\<^verbatim>\<open>i < 2*MODES_SHORT_MSG_BITS\<close>). The array \<^verbatim>\<open>bits\<close> is not initialised in the source; every
  cell is written before it is read.
\<close>

definition slice_step :: "u16 list \<Rightarrow> nat \<Rightarrow> nat \<Rightarrow> u8 list \<times> nat \<Rightarrow> u8 list \<times> nat" where
  "slice_step m base k acc =
     (let r = slice_bit (2 * k) (sample m (base + 2 * k)) (sample m (base + 2 * k + 1))
                (fst acc ! (k - 1))
      in ((fst acc)[k := fst r],
          if snd r \<and> 2 * k < 2 * MODES_SHORT_MSG_BITS then snd acc + 1 else snd acc))"

primrec slice_loop :: "u16 list \<Rightarrow> nat \<Rightarrow> nat list \<Rightarrow> u8 list \<times> nat \<Rightarrow> u8 list \<times> nat" where
  "slice_loop m base [] acc = acc"
| "slice_loop m base (k # ks) acc = slice_loop m base ks (slice_step m base k acc)"

definition slice_bits :: "u16 list \<Rightarrow> nat \<Rightarrow> u8 list \<times> nat" where
  "slice_bits m j =
     slice_loop m (j + 2 * MODES_PREAMBLE_US) [0..<MODES_LONG_MSG_BITS]
       (replicate MODES_LONG_MSG_BITS 0, 0)"

text \<open>
  Packing eight cells of \<^verbatim>\<open>bits\<close> into a byte: the shifts and ORs are done in \<^verbatim>\<open>int\<close> and the
  result is cut to 8 bits by the assignment.
\<close>

definition pack_byte :: "u8 list \<Rightarrow> nat \<Rightarrow> u8" where
  "pack_byte bits i =
     ucast (push_bit 7 (ucast (bits ! i) :: u32) OR
            push_bit 6 (ucast (bits ! (i + 1))) OR
            push_bit 5 (ucast (bits ! (i + 2))) OR
            push_bit 4 (ucast (bits ! (i + 3))) OR
            push_bit 3 (ucast (bits ! (i + 4))) OR
            push_bit 2 (ucast (bits ! (i + 5))) OR
            push_bit 1 (ucast (bits ! (i + 6))) OR
            ucast (bits ! (i + 7)))"

definition pack_bits :: "u8 list \<Rightarrow> u8 list" where
  "pack_bits bits = map (\<lambda>b. pack_byte bits (8 * b)) [0..<MODES_LONG_MSG_BITS div 8]"

text \<open>
  The noise filter: the sum of \<^verbatim>\<open>abs (m[..] - m[.. + 1])\<close> over the bits of the message,
  divided by \<^verbatim>\<open>4 * msg_len\<close>.
\<close>

definition noise_delta :: "u16 list \<Rightarrow> nat \<Rightarrow> nat \<Rightarrow> int" where
  "noise_delta m j msg_len =
     (\<Sum>k \<leftarrow> [0..<8 * msg_len].
        \<bar>sample m (j + 2 * k + 2 * MODES_PREAMBLE_US) -
         sample m (j + 2 * k + 2 * MODES_PREAMBLE_US + 1)\<bar>) div (4 * int msg_len)"

text \<open>
  The variables of the scan loop that live across iterations: the magnitude buffer, the
  position \<open>j\<close> (a \<^verbatim>\<open>uint32_t\<close>), the flag \<^verbatim>\<open>use_correction\<close>, and \<^verbatim>\<open>Modes\<close>.
\<close>

record demod_state =
  mag :: "u16 list"
  scan_j :: u32
  use_correction :: bool
  Modes :: global_data

text \<open>How one pass through the body of the loop ends.\<close>

datatype outcome =
    No_preamble
  | Noise
  | Not_decoded
  | Accepted modeS_message

text \<open>
  \<^verbatim>\<open>memcpy (aux, m + j + MODES_PREAMBLE_US*2, sizeof (aux))\<close> and the copy back:
  \<^verbatim>\<open>aux\<close> holds \<^verbatim>\<open>MODES_LONG_MSG_BITS*2\<close> samples.
\<close>

definition save_window :: "u16 list \<Rightarrow> nat \<Rightarrow> u16 list" where
  "save_window m j = take (2 * MODES_LONG_MSG_BITS) (drop (j + 2 * MODES_PREAMBLE_US) m)"

definition restore_window :: "u16 list \<Rightarrow> nat \<Rightarrow> u16 list \<Rightarrow> u16 list" where
  "restore_window m j aux =
     take (j + 2 * MODES_PREAMBLE_US) m @ aux @ drop (j + 2 * MODES_PREAMBLE_US + length aux) m"

text \<open>
  One pass through the body of the \<^verbatim>\<open>for\<close> loop of \<^verbatim>\<open>detect_modeS\<close>, followed by the
  \<^verbatim>\<open>j++\<close> of the loop (after a \<^verbatim>\<open>continue\<close> and at the end of the body alike), in three
  parts. The counters of \<^verbatim>\<open>Modes.stat\<close>, the signal level and the debug dumps are left out.
  Sample indices are natural numbers: under the loop's guard \<^verbatim>\<open>j < mlen - 2*MODES_FULL_LEN\<close>
  the 32-bit index arithmetic of the source does not wrap.

  First the buffer the bits are sliced from: on a retry (\<^verbatim>\<open>use_correction\<close>), for \<open>j > 0\<close>
  and a message that looks out of phase, the phase correction is applied in place.
\<close>

definition slicing_buffer :: "demod_state \<Rightarrow> u16 list" where
  "slicing_buffer s =
     (if use_correction s \<and> scan_j s \<noteq> 0 \<and> detect_out_of_phase (mag s) (unat (scan_j s)) \<noteq> 0
      then apply_phase_correction (mag s) (unat (scan_j s)) else mag s)"

text \<open>
  Then the buffer after the slicing: on a retry the window saved in \<^verbatim>\<open>aux\<close> before the
  correction is copied back.
\<close>

definition buffer_after :: "demod_state \<Rightarrow> u16 list" where
  "buffer_after s =
     (if use_correction s
      then restore_window (slicing_buffer s) (unat (scan_j s))
             (save_window (mag s) (unat (scan_j s)))
      else slicing_buffer s)"

text \<open>
  Then everything after the preamble tests that does not write the buffer: slicing,
  packing, the noise filter, the error rule, the decoder, and the advance of \<open>j\<close>. The
  result is how the pass ended, the next \<open>j\<close>, the next \<^verbatim>\<open>use_correction\<close> and \<^verbatim>\<open>Modes\<close>. A
  retry is \<^verbatim>\<open>j--\<close> followed by the \<^verbatim>\<open>j++\<close> of the loop.
\<close>

definition candidate_verdict ::
  "macros \<Rightarrow> int \<Rightarrow> demod_state \<Rightarrow> outcome \<times> u32 \<times> bool \<times> global_data" where
  "candidate_verdict M now s =
     (let j = unat (scan_j s); uc = use_correction s;
          sliced = slice_bits (slicing_buffer s) j;
          errors = snd sliced;
          frame = pack_bits (fst sliced);
          msg_len = modeS_message_len_by_type (unat (drop_bit 3 (frame ! 0))) div 8
      in if noise_delta (buffer_after s) j msg_len < 10 * 255
         then (Noise, scan_j s + 1, False, Modes s)
         else if errors = 0 \<or> (aggressive (Modes s) \<and> errors \<le> 2)
         then (case decode_modeS_message M (Modes s) now frame of
                 (mm, modes') \<Rightarrow>
                   if CRC_ok mm
                   then (Accepted (mm\<lparr>phase_corrected := uc\<rparr>),
                         scan_j s + word_of_nat (2 * (MODES_PREAMBLE_US + 8 * msg_len)) + 1,
                         False, modes')
                   else if \<not> uc
                   then (Not_decoded, scan_j s - 1 + 1, True, modes')
                   else (Not_decoded, scan_j s + 1, False, modes'))
         else if \<not> uc
         then (Not_decoded, scan_j s - 1 + 1, True, Modes s)
         else (Not_decoded, scan_j s + 1, False, Modes s))"

text \<open>
  The whole pass. The preamble tests are skipped on a retry (\<^verbatim>\<open>goto good_preamble\<close>).
\<close>

definition detect_step :: "macros \<Rightarrow> int \<Rightarrow> demod_state \<Rightarrow> outcome \<times> demod_state" where
  "detect_step M now s =
     (if \<not> use_correction s \<and> \<not> preamble_shape (mag s) (unat (scan_j s))
      then (No_preamble, s\<lparr>scan_j := scan_j s + 1\<rparr>)
      else if \<not> use_correction s \<and> \<not> preamble_quiet (mag s) (unat (scan_j s))
      then (No_preamble, s\<lparr>scan_j := scan_j s + 1\<rparr>)
      else (case candidate_verdict M now s of
              (out, j', uc', modes') \<Rightarrow>
                (out, \<lparr>mag = buffer_after s, scan_j = j', use_correction = uc', Modes = modes'\<rparr>)))"

text \<open>
  Names for the tests of one pass, as \<^const>\<open>detect_step\<close> and \<^const>\<open>candidate_verdict\<close> make
  them: the frame packed from the sliced bits, the slicer's error counter, the length in
  bytes that the frame's downlink format gives (\<^verbatim>\<open>msg_len\<close>), and then the four gates in the
  order of the source: the two preamble tests (skipped on a retry), the noise filter
  (\<^verbatim>\<open>delta < 10*255\<close> rejects), the error rule
  \<^verbatim>\<open>errors == 0 || (Modes.aggressive && errors <= 2)\<close>, and the \<^verbatim>\<open>CRC_ok\<close> of the decoded message.
\<close>

definition sliced_frame :: "demod_state \<Rightarrow> u8 list" where
  "sliced_frame s = pack_bits (fst (slice_bits (slicing_buffer s) (unat (scan_j s))))"

definition slicer_errors :: "demod_state \<Rightarrow> nat" where
  "slicer_errors s = snd (slice_bits (slicing_buffer s) (unat (scan_j s)))"

definition frame_len :: "demod_state \<Rightarrow> nat" where
  "frame_len s = modeS_message_len_by_type (unat (drop_bit 3 (sliced_frame s ! 0))) div 8"

definition preamble_passed :: "demod_state \<Rightarrow> bool" where
  "preamble_passed s \<longleftrightarrow>
     use_correction s \<or>
     (preamble_shape (mag s) (unat (scan_j s)) \<and> preamble_quiet (mag s) (unat (scan_j s)))"

definition noise_passed :: "demod_state \<Rightarrow> bool" where
  "noise_passed s \<longleftrightarrow>
     \<not> noise_delta (buffer_after s) (unat (scan_j s)) (frame_len s) < 10 * 255"

definition errors_allowed :: "demod_state \<Rightarrow> bool" where
  "errors_allowed s \<longleftrightarrow>
     slicer_errors s = 0 \<or> (aggressive (Modes s) \<and> slicer_errors s \<le> 2)"

definition decoded_message :: "macros \<Rightarrow> int \<Rightarrow> demod_state \<Rightarrow> modeS_message" where
  "decoded_message M now s = fst (decode_modeS_message M (Modes s) now (sliced_frame s))"

definition crc_passed :: "macros \<Rightarrow> int \<Rightarrow> demod_state \<Rightarrow> bool" where
  "crc_passed M now s \<longleftrightarrow> CRC_ok (decoded_message M now s)"

text \<open>
  A frame as its transmitter sends it, for testing the demodulator: the four pulses of the
  preamble, then two samples a bit (pulse first for a one, pulse second for a zero), and one
  more sample so that the scan loop runs at position 0.
\<close>

definition ppm_bit :: "u8 \<Rightarrow> nat \<Rightarrow> u16 list" where
  "ppm_bit byte b = (if bit byte (7 - b) then [6000, 0] else [0, 6000])"

definition ppm_samples :: "u8 list \<Rightarrow> u16 list" where
  "ppm_samples frame =
     [6000, 0, 6000, 0, 0, 0, 0, 6000, 0, 6000, 0, 0, 0, 0, 0, 0] @
     concat (map (\<lambda>byte. concat (map (ppm_bit byte) [0..<8])) frame) @ [0]"

section \<open>Magnitude mapper (\<^verbatim>\<open>dump1090.c\<close>)\<close>

text \<open>
  One entry of the lookup table, \<^verbatim>\<open>(uint16_t) round (360 * hypot (I, Q))\<close>. As for the
  positions, the \<^verbatim>\<open>double\<close> arithmetic is modelled in the real numbers: \<^verbatim>\<open>hypot\<close> is the
  square root of the sum of squares. C's \<^verbatim>\<open>round\<close> rounds halves away from zero, which for
  the non-negative numbers here is \<^const>\<open>round\<close>; the cast keeps the low 16 bits. No entry
  depends on the last digits of the \<^verbatim>\<open>double\<close>: see \<open>lut_entry_robust\<close> below.
\<close>

definition lut_entry :: "nat \<Rightarrow> nat \<Rightarrow> u16" where
  "lut_entry I Q = word_of_int (round (360 * sqrt (real (I * I + Q * Q))))"

text \<open>
  \<^verbatim>\<open>c_gen_magnitude_lut\<close>: the inner loop over \<open>Q\<close> and the outer loop over \<open>I\<close> fill the
  \<open>129 * 129\<close> cells allocated by \<^verbatim>\<open>malloc\<close>, each cell once.
\<close>

primrec lut_row :: "nat \<Rightarrow> nat list \<Rightarrow> u16 list \<Rightarrow> u16 list" where
  "lut_row I [] lut = lut"
| "lut_row I (Q # Qs) lut = lut_row I Qs (lut[I * 129 + Q := lut_entry I Q])"

primrec lut_rows :: "nat list \<Rightarrow> u16 list \<Rightarrow> u16 list" where
  "lut_rows [] lut = lut"
| "lut_rows (I # Is) lut = lut_rows Is (lut_row I [0..<129] lut)"

definition c_gen_magnitude_lut :: "u16 list" where
  "c_gen_magnitude_lut = lut_rows [0..<129] (replicate (129 * 129) 0)"

text \<open>
  \<^verbatim>\<open>compute_magnitude_vector\<close>: one magnitude for every pair of bytes of the I/Q data, whose
  length \<^verbatim>\<open>Modes.data_len\<close> is even; \<open>lut\<close> is \<^verbatim>\<open>Modes.magnitude_lut\<close>.
\<close>

fun compute_magnitude_vector :: "u16 list \<Rightarrow> u8 list \<Rightarrow> u16 list" where
  "compute_magnitude_vector lut (i # q # data) =
     (let I = uint i - 127; Q = uint q - 127;
          I' = (if I < 0 then - I else I);
          Q' = (if Q < 0 then - Q else Q)
      in lut ! nat (129 * I' + Q')) # compute_magnitude_vector lut data"
| "compute_magnitude_vector lut data = []"

text \<open>
  The integer square root by bisection, \<open>lo\<^sup>2 \<le> n < hi\<^sup>2\<close> throughout: it computes the
  table entries without real numbers (see \<open>lut_entry_code\<close> below).
\<close>

function bisect_sqrt :: "int \<Rightarrow> int \<Rightarrow> int \<Rightarrow> int" where
  "bisect_sqrt n lo hi =
     (if hi \<le> lo + 1 then lo
      else (let mid = (lo + hi) div 2
            in if mid * mid \<le> n then bisect_sqrt n mid hi else bisect_sqrt n lo mid))"
  by pat_completeness auto
termination
  by (relation "measure (\<lambda>(n, lo, hi). nat (hi - lo))") auto

declare bisect_sqrt.simps [simp del]

definition isqrt :: "int \<Rightarrow> int" where
  "isqrt n = bisect_sqrt n 0 (n + 1)"

section \<open>Concrete frames\<close>

text \<open>
  A DF17 identification frame whose checksum is right (callsign \<^verbatim>\<open>KLM1023\<close> followed by one
  space, address \<^verbatim>\<open>4840D6\<close>), and the same frame with bit 5 flipped (the first bit after the
  downlink format, so that the frame is still a DF17).
\<close>

definition klm_frame :: "u8 list" where
  "klm_frame = [0x8D, 0x48, 0x40, 0xD6, 0x20, 0x2C, 0xC3, 0x71, 0xC3, 0x2C, 0xE0, 0x57, 0x60, 0x98]"

definition klm_frame_bit5 :: "u8 list" where
  "klm_frame_bit5 = [0x89, 0x48, 0x40, 0xD6, 0x20, 0x2C, 0xC3, 0x71, 0xC3, 0x2C, 0xE0, 0x57, 0x60, 0x98]"

text \<open>The macro values of the original program: 1024 slots, 60 seconds.\<close>

definition M1024 :: macros where
  "M1024 = \<lparr>ICAO_CACHE_LEN = 1024, ICAO_CACHE_TTL = 60\<rparr>"

text \<open>\<^verbatim>\<open>Modes\<close> at start-up: not aggressive, the cache as \<^verbatim>\<open>calloc\<close> leaves it.\<close>

definition modes0 :: global_data where
  "modes0 = \<lparr>aggressive = False, ICAO_cache = replicate 2048 0\<rparr>"

text \<open>
  The frame of scenario S1 as the specification prints it, and the same frame with the
  checksum that \<^const>\<open>modeS_checksum\<close> computes for its first 88 bits.
\<close>

definition s1_frame :: "u8 list" where
  "s1_frame = [0x8D, 0x4B, 0x96, 0x96, 0x20, 0x29, 0x40, 0x73, 0xD9, 0x84, 0x07, 0x48, 0x22, 0x11]"

definition s1_frame_sealed :: "u8 list" where
  "s1_frame_sealed = [0x8D, 0x4B, 0x96, 0x96, 0x20, 0x29, 0x40, 0x73, 0xD9, 0x84, 0x07, 0x7E, 0x5E, 0xEA]"

text \<open>
  An even and an odd airborne position frame of one aircraft (address \<^verbatim>\<open>40621D\<close>): raw
  latitude and longitude 93000, 51372 (even) and 74158, 50194 (odd).
\<close>

definition even_frame :: "u8 list" where
  "even_frame = [0x8D, 0x40, 0x62, 0x1D, 0x58, 0xC3, 0x82, 0xD6, 0x90, 0xC8, 0xAC, 0x28, 0x63, 0xA7]"

definition odd_frame :: "u8 list" where
  "odd_frame = [0x8D, 0x40, 0x62, 0x1D, 0x58, 0xC3, 0x86, 0x43, 0x5C, 0xC4, 0x12, 0x69, 0x2A, 0xD6]"

text \<open>
  The two position frames decoded, and the record of their aircraft: \<open>tracked_even\<close> after
  the even frame alone, received 700 seconds after the clock's zero, and \<open>tracked_both\<close>
  after the odd frame ten seconds later.
\<close>

definition even_message :: modeS_message where
  "even_message = fst (decode_modeS_message M1024 modes0 1 even_frame)"

definition odd_message :: modeS_message where
  "odd_message = fst (decode_modeS_message M1024 modes0 11 odd_frame)"

definition tracked_even :: aircraft where
  "tracked_even =
     the (interactive_receive_data even_message 700000 (Some (new_aircraft 0x40621D 700000)))"

definition tracked_both :: aircraft where
  "tracked_both = the (interactive_receive_data odd_message 710000 (Some tracked_even))"

text \<open>
  States of the scan loop: at position 0 of the modulated frames \<open>klm_frame\<close> and
  \<open>s1_frame\<close>, first attempt; and a retry at position 1 of a flat buffer, which looks out
  of phase.
\<close>

definition klm_state :: demod_state where
  "klm_state = \<lparr>mag = ppm_samples klm_frame, scan_j = 0, use_correction = False, Modes = modes0\<rparr>"

definition s1_state :: demod_state where
  "s1_state = \<lparr>mag = ppm_samples s1_frame, scan_j = 0, use_correction = False, Modes = modes0\<rparr>"

definition retry_state :: demod_state where
  "retry_state = \<lparr>mag = replicate 300 5, scan_j = 1, use_correction = True, Modes = modes0\<rparr>"

text \<open>
  More states of the scan loop: a first attempt at position 0 of a flat buffer, which has
  no preamble; a first attempt at a preamble followed by samples that differ by 5 only;
  and the retry at position 0 of the modulated frame \<open>s1_frame\<close>.
\<close>

definition flat_state :: demod_state where
  "flat_state = \<lparr>mag = replicate 300 5, scan_j = 0, use_correction = False, Modes = modes0\<rparr>"

definition faint_state :: demod_state where
  "faint_state =
     \<lparr>mag = [6000, 0, 6000, 0, 0, 0, 0, 6000, 0, 6000, 0, 0, 0, 0, 0, 0] @
             concat (replicate 112 [5, 0]) @ [0],
      scan_j = 0, use_correction = False, Modes = modes0\<rparr>"

definition s1_retry_state :: demod_state where
  "s1_retry_state =
     \<lparr>mag = ppm_samples s1_frame, scan_j = 0, use_correction = True, Modes = modes0\<rparr>"

section \<open>Properties of the CRC engine\<close>

subsection \<open>The parity table\<close>

lemma table_length: "length modeS_checksum_table = 112"
  by (simp add: modeS_checksum_table_def)

lemma table_tail_all: "list_all (\<lambda>k. modeS_checksum_table ! k = 0) [88..<112]"
  by code_simp

lemma table_tail_zero:
  assumes "88 \<le> k" "k < 112" shows "modeS_checksum_table ! k = 0"
proof -
  from table_tail_all have "\<forall>k\<in>set [88..<112]. modeS_checksum_table ! k = 0"
    by (simp only: list_all_iff)
  then have "\<forall>k\<in>{88..<112}. modeS_checksum_table ! k = 0"
    by (simp only: set_upt)
  with assms show ?thesis by auto
qed

lemma table_head_all: "list_all (\<lambda>k. modeS_checksum_table ! k \<noteq> 0) [0..<88]"
  by code_simp

lemma table_head_nonzero:
  assumes "k < 88" shows "modeS_checksum_table ! k \<noteq> 0"
proof -
  from table_head_all have "\<forall>k\<in>set [0..<88]. modeS_checksum_table ! k \<noteq> 0"
    by (simp only: list_all_iff)
  then have "\<forall>k\<in>{0..<88}. modeS_checksum_table ! k \<noteq> 0"
    by (simp only: set_upt)
  with assms show ?thesis by auto
qed

lemma table_24_all: "list_all (\<lambda>w. drop_bit 24 w = 0) modeS_checksum_table"
  by code_simp

lemma table_24: "k < 112 \<Longrightarrow> drop_bit 24 (modeS_checksum_table ! k) = 0"
  using table_24_all by (simp only: list_all_length table_length)

lemma bitmask_test: "(x AND bitmask j \<noteq> 0) = bit x (7 - j mod 8)"
  unfolding bitmask_def
  by (metis and.commute bit_iff_and_push_bit_not_eq_0)

lemma bit_xor_bitmask: "k < 8 \<Longrightarrow> bit (x XOR bitmask j) k = (bit x k \<noteq> (k = 7 - j mod 8))"
  unfolding bitmask_def
  by (auto simp add: bit_xor_iff bit_push_bit_iff bit_1_iff bit_exp_iff)

lemma same_byte_bit:
  assumes d: "i div 8 = j div 8"
  shows "(7 - j mod 8 = 7 - i mod 8) = (i = (j::nat))"
proof -
  have "i mod 8 < 8" "j mod 8 < 8" by simp_all
  then have "(7 - j mod 8 = 7 - i mod 8) = (i mod 8 = j mod 8)" by linarith
  also have "\<dots> = (i = j)" using d by (metis div_mult_mod_eq)
  finally show ?thesis .
qed

lemma msg_bit_set_flip:
  "j div 8 < length aux \<Longrightarrow> msg_bit_set (flip_bit_copy aux i) j = (msg_bit_set aux j \<noteq> (i = j))"
proof (cases "i div 8 = j div 8")
  case True
  assume "j div 8 < length aux"
  with True show ?thesis
    by (simp add: msg_bit_set_def flip_bit_copy_def bitmask_test bit_xor_bitmask same_byte_bit)
next
  case False
  then have "i \<noteq> j" by auto
  with False show ?thesis
    by (simp add: msg_bit_set_def flip_bit_copy_def)
qed

subsection \<open>The checksum loop is linear in the message bits\<close>

lemma checksum_loop_xor:
  "checksum_loop m off js (crc XOR x) = checksum_loop m off js crc XOR x"
proof (induction js arbitrary: crc)
  case Nil
  then show ?case by simp
next
  case (Cons j js)
  have "(if msg_bit_set m j then (crc XOR x) XOR modeS_checksum_table ! (j + off) else crc XOR x)
      = (if msg_bit_set m j then crc XOR modeS_checksum_table ! (j + off) else crc) XOR x"
    by (simp add: ac_simps)
  then show ?case
    by (simp only: checksum_loop.simps Cons.IH)
qed

lemma checksum_loop_flip:
  "distinct js \<Longrightarrow> \<forall>j\<in>set js. j div 8 < length aux \<Longrightarrow>
   checksum_loop (flip_bit_copy aux i) off js crc =
   checksum_loop aux off js crc XOR (if i \<in> set js then modeS_checksum_table ! (i + off) else 0)"
proof (induction js arbitrary: crc)
  case Nil
  then show ?case by simp
next
  case (Cons j js)
  then have IH: "\<And>c. checksum_loop (flip_bit_copy aux i) off js c =
      checksum_loop aux off js c XOR (if i \<in> set js then modeS_checksum_table ! (i + off) else 0)"
    by simp
  from Cons.prems have j: "j div 8 < length aux" and nj: "j \<notin> set js" by simp_all
  let ?t = "modeS_checksum_table ! (j + off)"
  show ?case
  proof (cases "i = j")
    case True
    with nj IH have IH': "\<And>c. checksum_loop (flip_bit_copy aux j) off js c = checksum_loop aux off js c"
      by simp
    have flip: "msg_bit_set (flip_bit_copy aux j) j = (\<not> msg_bit_set aux j)"
      using j by (simp add: msg_bit_set_flip)
    have "checksum_loop aux off js crc = checksum_loop aux off js ((crc XOR ?t) XOR ?t)"
      by (simp add: xor.assoc)
    also have "\<dots> = checksum_loop aux off js (crc XOR ?t) XOR ?t"
      by (rule checksum_loop_xor)
    finally have unflip: "checksum_loop aux off js crc = checksum_loop aux off js (crc XOR ?t) XOR ?t" .
    show ?thesis
    proof (cases "msg_bit_set aux j")
      case True
      then show ?thesis using \<open>i = j\<close> flip unflip
        by (simp add: IH')
    next
      case False
      then show ?thesis using \<open>i = j\<close> flip
        by (simp add: IH' checksum_loop_xor)
    qed
  next
    case False
    with j show ?thesis
      by (simp add: IH msg_bit_set_flip)
  qed
qed

lemma checksum_loop_cong:
  "\<forall>j\<in>set js. modeS_checksum_table ! (j + off) \<noteq> 0 \<longrightarrow> msg_bit_set m j = msg_bit_set m' j \<Longrightarrow>
   checksum_loop m off js crc = checksum_loop m' off js crc"
  by (induction js arbitrary: crc) auto

lemma checksum_loop_24:
  "\<forall>j\<in>set js. j + off < 112 \<Longrightarrow> drop_bit 24 crc = 0 \<Longrightarrow>
   drop_bit 24 (checksum_loop m off js crc) = 0"
proof (induction js arbitrary: crc)
  case Nil
  then show ?case by simp
next
  case (Cons j js)
  have "drop_bit 24 (crc XOR modeS_checksum_table ! (j + off)) = 0"
    using Cons.prems by (simp add: drop_bit_xor table_24)
  with Cons show ?case by simp
qed

subsection \<open>The trailing three bytes\<close>

lemma bit_u8_high: "8 \<le> n \<Longrightarrow> \<not> bit (x :: u8) n"
  by (auto dest: bit_imp_le_length)

lemma be24_hi: "ucast (drop_bit 16 (be24 a b c)) = a"
  unfolding be24_def
  by (rule bit_word_eqI) (auto simp add: bit_simps bit_u8_high)

lemma be24_mid: "ucast (drop_bit 8 (be24 a b c)) = b"
  unfolding be24_def
  by (rule bit_word_eqI) (auto simp add: bit_simps bit_u8_high)

lemma be24_lo: "ucast (be24 a b c) = c"
  unfolding be24_def
  by (rule bit_word_eqI) (auto simp add: bit_simps bit_u8_high)

lemma be24_inj:
  assumes "be24 a b c = be24 a' b' c'"
  shows "a = a' \<and> b = b' \<and> c = c'"
proof -
  have "a = ucast (drop_bit 16 (be24 a b c))" by (simp only: be24_hi)
  also have "\<dots> = a'" by (simp only: assms be24_hi)
  finally have 1: "a = a'" .
  have "b = ucast (drop_bit 8 (be24 a b c))" by (simp only: be24_mid)
  also have "\<dots> = b'" by (simp only: assms be24_mid)
  finally have 2: "b = b'" .
  have "c = ucast (be24 a b c)" by (simp only: be24_lo)
  also have "\<dots> = c'" by (simp only: assms be24_lo)
  finally have 3: "c = c'" .
  from 1 2 3 show ?thesis by simp
qed

lemma be24_store:
  fixes crc :: u32
  assumes "drop_bit 24 crc = 0"
  shows "be24 (ucast (drop_bit 16 crc)) (ucast (drop_bit 8 crc)) (ucast crc) = crc"
proof (rule bit_word_eqI)
  fix n assume "n < LENGTH(32)"
  have hi: "\<not> bit crc k" if "24 \<le> k" for k
  proof -
    from that obtain d where "k = 24 + d" by (metis le_Suc_ex)
    moreover have "bit (drop_bit 24 crc) d = bit crc (24 + d)" by (simp add: bit_drop_bit_eq)
    ultimately show ?thesis using assms by simp
  qed
  consider "n < 8" | "8 \<le> n" "n < 16" | "16 \<le> n" "n < 24" | "24 \<le> n" by linarith
  then show "bit (be24 (ucast (drop_bit 16 crc)) (ucast (drop_bit 8 crc)) (ucast crc)) n = bit crc n"
  proof cases
    case 1
    then show ?thesis unfolding be24_def by (simp add: bit_simps)
  next
    case 2
    then have "n - 8 < 8" "n - 8 < 32" by linarith+
    with 2 show ?thesis unfolding be24_def by (simp add: bit_simps)
  next
    case 3
    then have "n - 16 < 8" "n - 16 < 32" "\<not> n - 8 < 8" by linarith+
    with 3 show ?thesis unfolding be24_def by (simp add: bit_simps)
  next
    case 4
    then show ?thesis unfolding be24_def using hi[of n] by (simp add: bit_simps)
  qed
qed

lemma crc_field_be24:
  "crc_field m bits = be24 (m ! (bits div 8 - 3)) (m ! (bits div 8 - 2)) (m ! (bits div 8 - 1))"
  by (simp add: crc_field_def)

lemma checksum_offset:
  "bits = 56 \<or> bits = 112 \<Longrightarrow>
   modeS_checksum m bits = checksum_loop m (112 - bits) [0..<bits] 0"
  by (auto simp add: modeS_checksum_def MODES_LONG_MSG_BITS_def MODES_SHORT_MSG_BITS_def)

lemma modeS_checksum_24:
  assumes "bits = 56 \<or> bits = 112"
  shows "drop_bit 24 (modeS_checksum m bits) = 0"
proof -
  have "\<forall>j\<in>set [0..<bits]. j + (112 - bits) < 112" using assms by auto
  then show ?thesis
    using assms by (simp only: checksum_offset checksum_loop_24 drop_bit_of_0)
qed

lemma modeS_checksum_head:
  assumes b: "bits = 56 \<or> bits = 112"
    and eq: "\<forall>j < bits - 24. msg_bit_set m j = msg_bit_set m' j"
  shows "modeS_checksum m bits = modeS_checksum m' bits"
proof -
  have "\<forall>j\<in>set [0..<bits]. modeS_checksum_table ! (j + (112 - bits)) \<noteq> 0
          \<longrightarrow> msg_bit_set m j = msg_bit_set m' j"
  proof (intro ballI impI)
    fix j assume j: "j \<in> set [0..<bits]" and nz: "modeS_checksum_table ! (j + (112 - bits)) \<noteq> 0"
    from j b have "j + (112 - bits) < 112" by auto
    with nz have "j + (112 - bits) < 88" using table_tail_zero by (meson not_le)
    with b have "j < bits - 24" by auto
    with eq show "msg_bit_set m j = msg_bit_set m' j" by simp
  qed
  then show ?thesis using b by (simp only: checksum_offset checksum_loop_cong)
qed

lemma modeS_checksum_flip:
  assumes b: "bits = 56 \<or> bits = 112" and len: "length aux = bits div 8" and k: "k < bits"
  shows "modeS_checksum (flip_bit_copy aux k) bits =
         modeS_checksum aux bits XOR modeS_checksum_table ! (k + (112 - bits))"
proof -
  have "distinct [0..<bits]" by simp
  moreover have "\<forall>j\<in>set [0..<bits]. j div 8 < length aux" using b len by auto
  ultimately have "checksum_loop (flip_bit_copy aux k) (112 - bits) [0..<bits] 0 =
     checksum_loop aux (112 - bits) [0..<bits] 0 XOR
       (if k \<in> set [0..<bits] then modeS_checksum_table ! (k + (112 - bits)) else 0)"
    by (rule checksum_loop_flip)
  with k b show ?thesis by (simp add: checksum_offset)
qed

lemma store_crc_bit:
  assumes "j < bits - 24" "bits = 56 \<or> bits = 112"
  shows "msg_bit_set (store_crc m bits crc) j = msg_bit_set m j"
proof -
  from assms have "j div 8 < bits div 8 - 3" by auto
  then show ?thesis by (simp add: msg_bit_set_def store_crc_def)
qed

lemma crc_field_store:
  assumes "length m = bits div 8" "bits = 56 \<or> bits = 112" "drop_bit 24 crc = 0"
  shows "crc_field (store_crc m bits crc) bits = crc"
proof -
  from assms(1,2) have "crc_field (store_crc m bits crc) bits =
      be24 (ucast (drop_bit 16 crc)) (ucast (drop_bit 8 crc)) (ucast crc)"
    by (auto simp add: crc_field_be24 store_crc_def)
  with assms(3) show ?thesis by (simp only: be24_store)
qed

lemma table_last_24_zero: "drop 88 modeS_checksum_table = replicate 24 0"
  by code_simp

text \<open>
  \<^bold>\<open>C2.\<close> For every 7-byte frame with \<open>nbits = 56\<close> and every 14-byte frame with
  \<open>nbits = 112\<close>: computing the checksum of the frame and writing it into the trailing three
  bytes gives a frame that passes the check, that is, the checksum recomputed over the sealed
  frame equals its trailing 24 bits. The reason is \<open>table_last_24_zero\<close>: the bits of the
  trailing three bytes meet only zero entries of the parity table.
\<close>

theorem compute_then_store_passes_check:
  assumes "(length frm = 7 \<and> nbits = 56) \<or> (length frm = 14 \<and> nbits = 112)"
  shows "crc_check (store_crc frm nbits (modeS_checksum frm nbits)) nbits"
proof -
  from assms have b: "nbits = 56 \<or> nbits = 112" and len: "length frm = nbits div 8" by auto
  have "modeS_checksum (store_crc frm nbits (modeS_checksum frm nbits)) nbits = modeS_checksum frm nbits"
    using b by (intro modeS_checksum_head) (simp_all add: store_crc_bit)
  moreover have "crc_field (store_crc frm nbits (modeS_checksum frm nbits)) nbits = modeS_checksum frm nbits"
    using len b by (intro crc_field_store modeS_checksum_24)
  ultimately show ?thesis by (simp add: crc_check_def)
qed

lemma bitmask_nonzero: "bitmask k \<noteq> 0"
proof -
  have "bit (bitmask k) (7 - k mod 8)"
    by (simp add: bitmask_def bit_simps)
  then show ?thesis by auto
qed

lemma xor_changes:
  fixes x t :: "'a :: len word"
  assumes "t \<noteq> 0"
  shows "x XOR t \<noteq> x" and "x \<noteq> x XOR t"
proof -
  have "t = 0" if "x XOR t = x"
  proof -
    have "t = x XOR (x XOR t)" by (simp add: xor.assoc [symmetric])
    also have "\<dots> = 0" using that by simp
    finally show ?thesis .
  qed
  with assms show "x XOR t \<noteq> x" by blast
  then show "x \<noteq> x XOR t" by metis
qed

lemma no_single_flip_valid:
  assumes b: "bits = 56 \<or> bits = 112" and len: "length aux = bits div 8" and k: "k < bits"
    and ok: "crc_field aux bits = modeS_checksum aux bits"
  shows "crc_field (flip_bit_copy aux k) bits \<noteq> modeS_checksum (flip_bit_copy aux k) bits"
proof (cases "k < bits - 24")
  case True
  with b have "k div 8 < bits div 8 - 3" by auto
  then have "crc_field (flip_bit_copy aux k) bits = crc_field aux bits"
    by (simp add: crc_field_def flip_bit_copy_def)
  moreover from True b have "k + (112 - bits) < 88" by auto
  then have "modeS_checksum_table ! (k + (112 - bits)) \<noteq> 0" by (rule table_head_nonzero)
  ultimately show ?thesis
    using ok xor_changes by (simp add: modeS_checksum_flip [OF b len k])
next
  case False
  with b k have "88 \<le> k + (112 - bits)" "k + (112 - bits) < 112" by auto
  then have "modeS_checksum_table ! (k + (112 - bits)) = 0" by (rule table_tail_zero)
  then have cs: "modeS_checksum (flip_bit_copy aux k) bits = modeS_checksum aux bits"
    by (simp add: modeS_checksum_flip [OF b len k])
  from False b k have kk: "k div 8 = bits div 8 - 3 \<or> k div 8 = bits div 8 - 2 \<or> k div 8 = bits div 8 - 1"
    by auto
  have "crc_field (flip_bit_copy aux k) bits \<noteq> crc_field aux bits"
  proof
    assume "crc_field (flip_bit_copy aux k) bits = crc_field aux bits"
    then have "flip_bit_copy aux k ! (bits div 8 - 3) = aux ! (bits div 8 - 3) \<and>
               flip_bit_copy aux k ! (bits div 8 - 2) = aux ! (bits div 8 - 2) \<and>
               flip_bit_copy aux k ! (bits div 8 - 1) = aux ! (bits div 8 - 1)"
      unfolding crc_field_be24 by (rule be24_inj)
    then have "flip_bit_copy aux k ! (k div 8) = aux ! (k div 8)" using kk by auto
    moreover have "k div 8 < length aux" using len k b by auto
    ultimately have "aux ! (k div 8) XOR bitmask k = aux ! (k div 8)"
      by (simp add: flip_bit_copy_def)
    then show False using xor_changes(1) [OF bitmask_nonzero] by blast
  qed
  with cs ok show ?thesis by simp
qed

lemma fix_single_loop_found:
  "fix_single_loop frm bits js = (i, frm') \<Longrightarrow> 0 \<le> i \<Longrightarrow>
   \<exists>k\<in>set js. i = int k \<and>
     frm' = flip_bit_copy (take (bits div 8) frm) k @ drop (bits div 8) frm \<and>
     crc_field (flip_bit_copy (take (bits div 8) frm) k) bits =
       modeS_checksum (flip_bit_copy (take (bits div 8) frm) k) bits"
  by (induction js) (auto simp add: Let_def split: if_splits)

lemma fix_single_loop_valid:
  assumes b: "bits = 56 \<or> bits = 112" and len: "bits div 8 \<le> length frm"
    and ok: "crc_check (take (bits div 8) frm) bits"
  shows "\<forall>k\<in>set js. k < bits \<Longrightarrow> fix_single_loop frm bits js = (-1, frm)"
proof (induction js)
  case Nil
  then show ?case by simp
next
  case (Cons k js)
  then have k: "k < bits" by simp
  from len have "length (take (bits div 8) frm) = bits div 8" by simp
  from no_single_flip_valid [OF b this k] ok
  have "crc_field (flip_bit_copy (take (bits div 8) frm) k) bits \<noteq>
        modeS_checksum (flip_bit_copy (take (bits div 8) frm) k) bits"
    by (simp add: crc_check_def)
  with Cons show ?case by (simp add: Let_def)
qed

lemma length_flip_bit_copy: "length (flip_bit_copy aux k) = length aux"
  by (simp add: flip_bit_copy_def)

text \<open>
  \<^bold>\<open>C4, as the code has it.\<close> For a 56- or 112-bit message on which a first call of
  \<^const>\<open>fix_single_bit_errors\<close> returns an index \<open>i \<ge> 0\<close> and the rewritten buffer
  \<open>frm'\<close>: the rewritten message passes the check, and a second call on \<open>frm'\<close> returns
  \<open>-1\<close> and leaves the buffer as it is. The second call cannot return \<open>i\<close> again: it only
  ever tests messages with one bit flipped, and no single flip of a message that passes the
  check passes it.
\<close>

theorem fix_single_second_call:
  assumes "(nbits = 56 \<or> nbits = 112) \<and> nbits div 8 \<le> length frm"
    and "fix_single_bit_errors frm nbits = (i, frm')" and "0 \<le> i"
  shows "fix_single_bit_errors frm' nbits = (-1, frm') \<and> crc_check (take (nbits div 8) frm') nbits"
proof -
  from assms(1) have b: "nbits = 56 \<or> nbits = 112" and len: "nbits div 8 \<le> length frm" by auto
  let ?n = "nbits div 8"
  from assms(2,3) obtain k where k: "k \<in> set [0..<nbits]"
    and frm': "frm' = flip_bit_copy (take ?n frm) k @ drop ?n frm"
    and ok: "crc_field (flip_bit_copy (take ?n frm) k) nbits =
       modeS_checksum (flip_bit_copy (take ?n frm) k) nbits"
    unfolding fix_single_bit_errors_def by (blast dest: fix_single_loop_found)
  from len have l: "length (flip_bit_copy (take ?n frm) k) = ?n"
    by (simp add: length_flip_bit_copy)
  with frm' have tk: "take ?n frm' = flip_bit_copy (take ?n frm) k" by simp
  with ok have valid: "crc_check (take ?n frm') nbits" by (simp add: crc_check_def)
  from frm' l len have "?n \<le> length frm'" by simp
  from fix_single_loop_valid [OF b this valid, of "[0..<nbits]"]
  show ?thesis using valid by (simp add: fix_single_bit_errors_def)
qed

lemma klm_frame_passes: "crc_check klm_frame 112"
  by code_simp

lemma fix_klm_frame_bit5: "fix_single_bit_errors klm_frame_bit5 112 = (5, klm_frame)"
  by code_simp

lemma fix_klm_frame: "fix_single_bit_errors klm_frame 112 = (-1, klm_frame)"
proof -
  have "(112::nat) = 56 \<or> (112::nat) = 112" by simp
  moreover have "112 div 8 \<le> length klm_frame" by (simp add: klm_frame_def)
  moreover have "crc_check (take (112 div 8) klm_frame) 112"
    using klm_frame_passes by (simp add: klm_frame_def)
  moreover have "\<forall>k\<in>set [0..<112]. k < (112::nat)" by (metis atLeastLessThan_iff set_upt)
  ultimately have "fix_single_loop klm_frame 112 [0..<112] = (-1, klm_frame)"
    by (rule fix_single_loop_valid)
  then show ?thesis by (simp only: fix_single_bit_errors_def)
qed

text \<open>
  \<^bold>\<open>C4, as stated, fails.\<close> On the frame \<open>klm_frame_bit5\<close> (a valid DF17 frame with
  bit 5 flipped) the first call returns index 5 and rewrites the buffer to \<open>klm_frame\<close>;
  the second call, on \<open>klm_frame\<close>, returns \<open>-1\<close>, not 5.
\<close>

theorem fix_single_not_idempotent:
  "fix_single_bit_errors klm_frame_bit5 112 = (5, klm_frame) \<and>
   fst (fix_single_bit_errors klm_frame 112) \<noteq> 5"
  by (simp add: fix_klm_frame_bit5 fix_klm_frame)

theorem fix_single_second_call_witness:
  "fix_single_bit_errors klm_frame 112 = (-1, klm_frame) \<and>
   crc_check (take (112 div 8) klm_frame) 112"
proof -
  have "((112::nat) = 56 \<or> (112::nat) = 112) \<and> 112 div 8 \<le> length klm_frame_bit5"
    by (simp add: klm_frame_bit5_def)
  from fix_single_second_call [OF this fix_klm_frame_bit5] show ?thesis by simp
qed

theorem compute_then_store_witness:
  "crc_check (store_crc klm_frame 112 (modeS_checksum klm_frame 112)) 112"
proof -
  have "(length klm_frame = 7 \<and> (112::nat) = 56) \<or> (length klm_frame = 14 \<and> (112::nat) = 112)"
    by (simp add: klm_frame_def)
  then show ?thesis by (rule compute_then_store_passes_check)
qed

section \<open>Properties of the address cache\<close>

lemma hash_in_range:
  assumes "ICAO_CACHE_LEN M = 2 ^ k" "k \<le> 31"
  shows "unat (ICAO_cache_hash_address M x) < ICAO_CACHE_LEN M"
proof -
  let ?len = "word_of_nat (ICAO_CACHE_LEN M) :: u32"
  have lt: "(2::nat) ^ k < 2 ^ 32" using assms(2) by (intro power_strict_increasing) simp_all
  have "unat ?len = ICAO_CACHE_LEN M mod 2 ^ LENGTH(32)" by (rule unat_of_nat)
  also have "\<dots> = 2 ^ k" using lt assms(1) by simp
  finally have ul: "unat ?len = 2 ^ k" .
  then have "?len \<noteq> 0" by auto
  then have um: "unat (?len - 1) = 2 ^ k - 1"
    using ul by (simp add: unat_minus_one)
  have "ICAO_cache_hash_address M x \<le> ?len - 1"
    unfolding ICAO_cache_hash_address_def Let_def by (rule word_and_le1)
  then have "unat (ICAO_cache_hash_address M x) \<le> unat (?len - 1)" by (simp add: word_le_nat_alt)
  moreover have "0 < (2::nat) ^ k" by simp
  ultimately have "unat (ICAO_cache_hash_address M x) < 2 ^ k" using um by linarith
  with assms(1) show ?thesis by simp
qed

lemma slot_cells:
  assumes "ICAO_CACHE_LEN M = 2 ^ k" "k \<le> 31"
  shows "unat (ICAO_cache_hash_address M x * 2) = 2 * unat (ICAO_cache_hash_address M x)"
    and "unat (ICAO_cache_hash_address M x * 2 + 1) = 2 * unat (ICAO_cache_hash_address M x) + 1"
    and "unat (2 * ICAO_cache_hash_address M x) = 2 * unat (ICAO_cache_hash_address M x)"
    and "unat (2 * ICAO_cache_hash_address M x + 1) = 2 * unat (ICAO_cache_hash_address M x) + 1"
proof -
  let ?h = "ICAO_cache_hash_address M x"
  have "unat ?h < 2 ^ k" using hash_in_range [OF assms] assms(1) by simp
  also have "(2::nat) ^ k \<le> 2 ^ 31" using assms(2) by (intro power_increasing) simp_all
  finally have h: "unat ?h < 2 ^ 31" .
  then show 1: "unat (?h * 2) = 2 * unat ?h"
    by (simp add: unat_word_ariths)
  from h have "2 * unat ?h + 1 < 2 ^ 32" by simp
  with 1 show 2: "unat (?h * 2 + 1) = 2 * unat ?h + 1"
    by (simp add: unat_word_ariths)
  from 1 show "unat (2 * ?h) = 2 * unat ?h" by (simp add: mult.commute)
  from 2 show "unat (2 * ?h + 1) = 2 * unat ?h + 1" by (simp add: mult.commute)
qed

lemma cache_slot_facts:
  assumes "ICAO_CACHE_LEN M = 2 ^ k \<and> k \<le> 31 \<and> length cache = 2 * ICAO_CACHE_LEN M"
  shows "ICAO_cache_hash_address M x =
           (let y = hash_round (hash_round x) in drop_bit 16 y XOR y) AND
           (word_of_nat (ICAO_CACHE_LEN M) - 1)"
    and "unat (ICAO_cache_hash_address M x) < ICAO_CACHE_LEN M"
    and "ICAO_cache_add_address M cache x now =
           cache[2 * unat (ICAO_cache_hash_address M x) := x,
                 2 * unat (ICAO_cache_hash_address M x) + 1 := word_of_int now]"
    and "ICAO_address_recently_seen M cache x now' \<longleftrightarrow>
           cache ! (2 * unat (ICAO_cache_hash_address M x)) = x \<and> x \<noteq> 0 \<and>
           now' - uint (cache ! (2 * unat (ICAO_cache_hash_address M x) + 1)) \<le> ICAO_CACHE_TTL M"
    and "ICAO_address_recently_seen M (ICAO_cache_add_address M cache x now) x now' \<longleftrightarrow>
           x \<noteq> 0 \<and> now' - uint (word_of_int now :: u32) \<le> ICAO_CACHE_TTL M"
proof -
  from assms have len: "ICAO_CACHE_LEN M = 2 ^ k" and k: "k \<le> 31"
    and c: "length cache = 2 * ICAO_CACHE_LEN M" by simp_all
  note cells = slot_cells [OF len k]
  show "ICAO_cache_hash_address M x =
           (let y = hash_round (hash_round x) in drop_bit 16 y XOR y) AND
           (word_of_nat (ICAO_CACHE_LEN M) - 1)"
    by (simp add: ICAO_cache_hash_address_def hash_round_def Let_def)
  show r: "unat (ICAO_cache_hash_address M x) < ICAO_CACHE_LEN M"
    by (rule hash_in_range [OF len k])
  show a: "ICAO_cache_add_address M cache x now =
           cache[2 * unat (ICAO_cache_hash_address M x) := x,
                 2 * unat (ICAO_cache_hash_address M x) + 1 := word_of_int now]"
    by (simp add: ICAO_cache_add_address_def Let_def cells)
  show s: "ICAO_address_recently_seen M cache x now' \<longleftrightarrow>
           cache ! (2 * unat (ICAO_cache_hash_address M x)) = x \<and> x \<noteq> 0 \<and>
           now' - uint (cache ! (2 * unat (ICAO_cache_hash_address M x) + 1)) \<le> ICAO_CACHE_TTL M"
    for cache
    by (auto simp add: ICAO_address_recently_seen_def Let_def cells simp del: One_nat_def)
  from r c show "ICAO_address_recently_seen M (ICAO_cache_add_address M cache x now) x now' \<longleftrightarrow>
           x \<noteq> 0 \<and> now' - uint (word_of_int now :: u32) \<le> ICAO_CACHE_TTL M"
    unfolding s a by simp
qed

text \<open>
  \<^bold>\<open>C6, as the code has it.\<close> For a table of \<open>2 ^ k\<close> slots (\<open>k \<le> 31\<close>) and every
  address \<open>x\<close>: the slot index is two applications of the round function
  \<^const>\<open>hash_round\<close> followed by a last \<^verbatim>\<open>(y >> 16) ^ y\<close> without the multiplication, masked
  to the table size; it is below the table size; insertion writes the address and the time
  into the two cells of that slot, lookup reads the same two cells, and so an address just
  inserted is found again while its time is within the TTL (address 0 is never found).
\<close>

theorem cache_slot_index:
  assumes "ICAO_CACHE_LEN M = 2 ^ k \<and> k \<le> 31 \<and> length cache = 2 * ICAO_CACHE_LEN M"
  shows "ICAO_cache_hash_address M x =
           (let y = hash_round (hash_round x) in drop_bit 16 y XOR y) AND
           (word_of_nat (ICAO_CACHE_LEN M) - 1) \<and>
         unat (ICAO_cache_hash_address M x) < ICAO_CACHE_LEN M \<and>
         ICAO_cache_add_address M cache x now =
           cache[2 * unat (ICAO_cache_hash_address M x) := x,
                 2 * unat (ICAO_cache_hash_address M x) + 1 := word_of_int now] \<and>
         (ICAO_address_recently_seen M cache x now' \<longleftrightarrow>
           cache ! (2 * unat (ICAO_cache_hash_address M x)) = x \<and> x \<noteq> 0 \<and>
           now' - uint (cache ! (2 * unat (ICAO_cache_hash_address M x) + 1)) \<le> ICAO_CACHE_TTL M) \<and>
         (ICAO_address_recently_seen M (ICAO_cache_add_address M cache x now) x now' \<longleftrightarrow>
           x \<noteq> 0 \<and> now' - uint (word_of_int now :: u32) \<le> ICAO_CACHE_TTL M)"
  by (intro conjI cache_slot_facts [OF assms])

text \<open>
  \<^bold>\<open>C6, as stated, fails.\<close> With 1024 slots the slot of address \<^verbatim>\<open>4840D6\<close> is 518; three
  full rounds, each with the multiplication, masked to the table size give 354.
\<close>

theorem hash_is_not_three_rounds:
  "ICAO_cache_hash_address M1024 0x4840D6 \<noteq>
   hash_round (hash_round (hash_round 0x4840D6)) AND (word_of_nat (ICAO_CACHE_LEN M1024) - 1)"
  by (simp add: ICAO_cache_hash_address_def hash_round_def M1024_def)

theorem cache_slot_index_witness:
  "ICAO_cache_hash_address M1024 0x4840D6 = 518 \<and>
   unat (ICAO_cache_hash_address M1024 0x4840D6) < 1024 \<and>
   ICAO_address_recently_seen M1024
     (ICAO_cache_add_address M1024 (replicate 2048 0) 0x4840D6 1000) 0x4840D6 1010"
proof -
  have h: "ICAO_CACHE_LEN M1024 = 2 ^ 10 \<and> (10::nat) \<le> 31 \<and>
        length (replicate 2048 (0::u32)) = 2 * ICAO_CACHE_LEN M1024"
    by (simp add: M1024_def)
  note w = cache_slot_index [where M = M1024 and k = 10 and cache = "replicate 2048 0"
      and x = "0x4840D6" and now = 1000 and now' = 1010, OF h]
  from w have "ICAO_cache_hash_address M1024 0x4840D6 =
      (let y = hash_round (hash_round 0x4840D6) in drop_bit 16 y XOR y) AND
      (word_of_nat (ICAO_CACHE_LEN M1024) - 1)"
    by (rule conjunct1)
  also have "\<dots> = 518" by (simp add: hash_round_def M1024_def)
  finally have 1: "ICAO_cache_hash_address M1024 0x4840D6 = 518" .
  from w have "ICAO_address_recently_seen M1024
       (ICAO_cache_add_address M1024 (replicate 2048 0) 0x4840D6 1000) 0x4840D6 1010 \<longleftrightarrow>
     (0x4840D6 :: u32) \<noteq> 0 \<and> 1010 - uint (word_of_int 1000 :: u32) \<le> ICAO_CACHE_TTL M1024"
    by blast
  then have 2: "ICAO_address_recently_seen M1024
       (ICAO_cache_add_address M1024 (replicate 2048 0) 0x4840D6 1000) 0x4840D6 1010"
    by (simp add: M1024_def)
  from 1 2 show ?thesis by simp
qed

section \<open>Properties of the decoder\<close>

lemma decode_extended_squitter_keeps:
  "msg_type (decode_extended_squitter m mm) = msg_type mm"
  "CRC_ok (decode_extended_squitter m mm) = CRC_ok mm"
  "error_bit (decode_extended_squitter m mm) = error_bit mm"
  "AA (decode_extended_squitter m mm) = AA mm"
  "msg (decode_extended_squitter m mm) = msg mm"
  by (simp_all add: decode_extended_squitter_def split: prod.splits)

lemma payload_fields_keeps:
  "msg_type (payload_fields m mm) = msg_type mm"
  "CRC_ok (payload_fields m mm) = CRC_ok mm"
  "error_bit (payload_fields m mm) = error_bit mm"
  "AA (payload_fields m mm) = AA mm"
  "msg (payload_fields m mm) = msg mm"
  by (simp_all add: payload_fields_def Let_def decode_extended_squitter_keeps split: prod.splits)

lemma brute_force_AP_keeps:
  "msg_type (snd (brute_force_AP M cache now m mm)) = msg_type mm"
  "error_bit (snd (brute_force_AP M cache now m mm)) = error_bit mm"
  "msg (snd (brute_force_AP M cache now m mm)) = msg mm"
  by (simp_all add: brute_force_AP_def Let_def)

lemma address_stage_keeps:
  assumes "address_stage M modes now m mm = (mm', modes')"
  shows "msg_type mm' = msg_type mm" and "error_bit mm' = error_bit mm" and "msg mm' = msg mm"
  using assms brute_force_AP_keeps [of M "ICAO_cache modes" now m mm]
  by (auto simp add: address_stage_def split: prod.splits if_splits)

lemma address_stage_squitter:
  assumes "address_stage M modes now m mm = (mm', modes')"
    and "msg_type mm = 11 \<or> msg_type mm = 17"
  shows "mm' = mm"
    and "CRC_ok mm \<and> error_bit mm = -1 \<Longrightarrow>
           ICAO_cache modes' = ICAO_cache_add_address M (ICAO_cache modes)
               (aircraft_get_addr (AA mm ! 0) (AA mm ! 1) (AA mm ! 2)) now"
    and "\<not> (CRC_ok mm \<and> error_bit mm = -1) \<Longrightarrow> modes' = modes"
  using assms by (auto simp add: address_stage_def split: if_splits)

text \<open>
  \<^bold>\<open>C5, as the code has it.\<close> For every decoded DF11 or DF17 message whose CRC check passes:
  if it passed without any fix (\<^verbatim>\<open>error_bit == -1\<close>), the decoder inserts the message's address
  into the cache with the current time; if it passed only after a single-bit or a two-bit
  fix (\<^verbatim>\<open>error_bit != -1\<close>), the cache is left as it was.
\<close>

theorem cache_insert_only_unfixed:
  assumes "decode_modeS_message M modes now frame = (mm, modes')"
    and "msg_type mm = 11 \<or> msg_type mm = 17"
    and "CRC_ok mm"
  shows "(error_bit mm = -1 \<longrightarrow>
           ICAO_cache modes' =
             ICAO_cache_add_address M (ICAO_cache modes)
               (aircraft_get_addr (AA mm ! 0) (AA mm ! 1) (AA mm ! 2)) now) \<and>
         (error_bit mm \<noteq> -1 \<longrightarrow> ICAO_cache modes' = ICAO_cache modes)"
proof -
  from assms(1) obtain e m crc ok mm1 where
    a: "address_stage M modes now m
          (header_fields m (unat (drop_bit 3 (take 14 frame ! 0)))
             (modeS_message_len_by_type (unat (drop_bit 3 (take 14 frame ! 0)))) crc e ok) = (mm1, modes')"
    and mm: "mm = (payload_fields m mm1)\<lparr>phase_corrected := False\<rparr>"
    by (auto simp add: decode_modeS_message_def Let_def split: prod.splits)
  let ?h = "header_fields m (unat (drop_bit 3 (take 14 frame ! 0)))
             (modeS_message_len_by_type (unat (drop_bit 3 (take 14 frame ! 0)))) crc e ok"
  from mm have same: "msg_type mm = msg_type mm1" "CRC_ok mm = CRC_ok mm1"
    "error_bit mm = error_bit mm1" "AA mm = AA mm1"
    by (simp_all add: payload_fields_keeps)
  from address_stage_keeps(1) [OF a] assms(2) same
  have t: "msg_type ?h = 11 \<or> msg_type ?h = 17" by simp
  from address_stage_squitter(1) [OF a t] have eq: "mm1 = ?h" .
  show ?thesis
  proof (cases "error_bit mm = -1")
    case True
    with assms(3) same eq have "CRC_ok ?h \<and> error_bit ?h = -1" by simp
    from address_stage_squitter(2) [OF a t this] True same eq show ?thesis by simp
  next
    case False
    with same eq have "\<not> (CRC_ok ?h \<and> error_bit ?h = -1)" by simp
    from address_stage_squitter(3) [OF a t this] False show ?thesis by simp
  qed
qed

lemma header_fields_sel:
  "msg_type (header_fields m t bits crc e ok) = t"
  "msg_bits (header_fields m t bits crc e ok) = bits"
  "CRC_ok (header_fields m t bits crc e ok) = ok"
  "error_bit (header_fields m t bits crc e ok) = e"
  "AA (header_fields m t bits crc e ok) = [m ! 1, m ! 2, m ! 3]"
  "ME_type (header_fields m t bits crc e ok) = unat (drop_bit 3 (byte_at m 4))"
  "flight (header_fields m t bits crc e ok) = replicate 9 NUL"
  by (simp_all add: header_fields_def zero_message_def)

lemma klm_frame_bit5_fails: "crc_field klm_frame_bit5 112 \<noteq> modeS_checksum klm_frame_bit5 112"
  by code_simp

lemma klm_frame_checksum: "modeS_checksum klm_frame 112 = 0x576098"
  by code_simp

lemma klm_frame_crc_field: "crc_field klm_frame 112 = 0x576098"
  by code_simp

lemma klm_frame_take: "take 14 klm_frame = klm_frame" "take 14 klm_frame_bit5 = klm_frame_bit5"
  by (simp_all add: klm_frame_def klm_frame_bit5_def)

lemma klm_frame_type:
  "unat (drop_bit 3 (klm_frame ! 0)) = 17" "unat (drop_bit 3 (klm_frame_bit5 ! 0)) = 17"
  by (simp_all add: klm_frame_def klm_frame_bit5_def)

lemma crc_stage_klm_frame_bit5:
  "crc_stage aggr klm_frame_bit5 17 112 = (5, klm_frame, 0x576098, True)"
  by (simp add: crc_stage_def Let_def fix_klm_frame_bit5 klm_frame_bit5_fails klm_frame_checksum)

lemma crc_stage_klm_frame:
  "crc_stage aggr klm_frame 17 112 = (-1, klm_frame, 0x576098, True)"
  by (simp add: crc_stage_def Let_def klm_frame_checksum klm_frame_crc_field)

lemma len_by_type_17: "modeS_message_len_by_type 17 = 112"
  by (simp add: modeS_message_len_by_type_def MODES_LONG_MSG_BITS_def)

lemma decode_klm_frame_bit5:
  "decode_modeS_message M modes now klm_frame_bit5 =
     ((payload_fields klm_frame (header_fields klm_frame 17 112 0x576098 5 True))
        \<lparr>phase_corrected := False\<rparr>, modes)"
  by (simp add: decode_modeS_message_def Let_def klm_frame_take klm_frame_type len_by_type_17
      crc_stage_klm_frame_bit5 address_stage_def header_fields_sel)

lemma klm_frame_addr:
  "aircraft_get_addr (klm_frame ! 1) (klm_frame ! 2) (klm_frame ! 3) = 0x4840D6"
  "aircraft_get_addr (klm_frame ! Suc 0) (klm_frame ! 2) (klm_frame ! 3) = 0x4840D6"
  by (simp_all add: aircraft_get_addr_def be24_def klm_frame_def)

lemma klm_frame_slot: "ICAO_cache_hash_address M1024 0x4840D6 = 518"
  by (simp add: ICAO_cache_hash_address_def M1024_def)

lemma decode_klm_frame:
  "decode_modeS_message M modes now klm_frame =
     ((payload_fields klm_frame (header_fields klm_frame 17 112 0x576098 (-1) True))
        \<lparr>phase_corrected := False\<rparr>,
      modes\<lparr>ICAO_cache := ICAO_cache_add_address M (ICAO_cache modes) 0x4840D6 now\<rparr>)"
  by (simp add: decode_modeS_message_def Let_def klm_frame_take klm_frame_type len_by_type_17
      crc_stage_klm_frame address_stage_def header_fields_sel klm_frame_addr)

text \<open>
  \<^bold>\<open>C5, as stated, fails.\<close> The DF17 frame \<open>klm_frame_bit5\<close> passes the CRC check after
  a single-bit fix (in aggressive mode as well as without it); the decoder leaves the empty
  cache empty, and the address of the message is not recently seen afterwards.
\<close>

theorem fixed_message_not_cached:
  "(case decode_modeS_message M1024 (modes0\<lparr>aggressive := True\<rparr>) 1000 klm_frame_bit5 of
      (mm, modes') \<Rightarrow>
        msg_type mm = 17 \<and> CRC_ok mm \<and> error_bit mm = 5 \<and>
        ICAO_cache modes' = ICAO_cache modes0 \<and>
        \<not> ICAO_address_recently_seen M1024 (ICAO_cache modes')
             (aircraft_get_addr (AA mm ! 0) (AA mm ! 1) (AA mm ! 2)) 1000)"
  by (simp add: decode_klm_frame_bit5 payload_fields_keeps header_fields_sel modes0_def
      ICAO_address_recently_seen_def Let_def klm_frame_addr klm_frame_slot)

theorem cache_insert_only_unfixed_witness:
  "ICAO_cache (snd (decode_modeS_message M1024 modes0 1000 klm_frame)) =
     ICAO_cache_add_address M1024 (ICAO_cache modes0) 0x4840D6 1000"
proof -
  obtain mm modes' where d: "decode_modeS_message M1024 modes0 1000 klm_frame = (mm, modes')"
    by (cases "decode_modeS_message M1024 modes0 1000 klm_frame")
  from d have mm: "mm = (payload_fields klm_frame (header_fields klm_frame 17 112 0x576098 (-1) True))
        \<lparr>phase_corrected := False\<rparr>"
    by (simp add: decode_klm_frame)
  have f: "msg_type mm = 17" "CRC_ok mm" "error_bit mm = -1"
    "AA mm = [klm_frame ! 1, klm_frame ! 2, klm_frame ! 3]"
    by (simp_all add: mm payload_fields_keeps header_fields_sel)
  from f(1) have t: "msg_type mm = 11 \<or> msg_type mm = 17" by simp
  have "aircraft_get_addr (AA mm ! 0) (AA mm ! 1) (AA mm ! 2) = 0x4840D6"
    by (simp add: f klm_frame_addr)
  moreover from cache_insert_only_unfixed [OF d t f(2)] f(3)
  have "ICAO_cache modes' =
      ICAO_cache_add_address M1024 (ICAO_cache modes0)
        (aircraft_get_addr (AA mm ! 0) (AA mm ! 1) (AA mm ! 2)) 1000"
    by blast
  ultimately show ?thesis using d by simp
qed

section \<open>When no single flip repairs a message\<close>

lemma bit_be24:
  "bit (be24 a b c) n =
     (if n < 8 then bit c n else if n < 16 then bit b (n - 8)
      else if n < 24 then bit a (n - 16) else False)"
proof -
  consider "n < 8" | "8 \<le> n" "n < 16" | "16 \<le> n" "n < 24" | "24 \<le> n" by linarith
  then show ?thesis
  proof cases
    case 1
    then show ?thesis unfolding be24_def by (simp add: bit_simps)
  next
    case 2
    then have "n - 8 < 8" "\<not> n < 8" by linarith+
    with 2 show ?thesis unfolding be24_def by (simp add: bit_simps bit_u8_high)
  next
    case 3
    then have "n - 16 < 8" "\<not> n < 8" "\<not> n - 8 < 8" "\<not> n < 16" by linarith+
    with 3 show ?thesis unfolding be24_def by (simp add: bit_simps bit_u8_high)
  next
    case 4
    then have "\<not> n - 16 < 8" "\<not> n < 8" "\<not> n - 8 < 8" "\<not> n < 16" "\<not> n < 24" by linarith+
    with 4 show ?thesis unfolding be24_def by (simp add: bit_simps bit_u8_high)
  qed
qed

lemma bit_xor_single:
  "s < 32 \<Longrightarrow> bit ((x::u32) XOR 2 ^ s) n = (bit x n \<noteq> (n = s))"
  by (auto simp add: bit_simps)

lemma be24_flip_hi: "be24 (a XOR bitmask j) b c = be24 a b c XOR push_bit (23 - j mod 8) 1"
proof (rule bit_word_eqI)
  fix n assume "n < LENGTH(32)"
  have r: "j mod 8 < 8" by simp
  consider "n < 8" | "8 \<le> n" "n < 16" | "16 \<le> n" "n < 24" | "24 \<le> n" by linarith
  then show "bit (be24 (a XOR bitmask j) b c) n = bit (be24 a b c XOR push_bit (23 - j mod 8) 1) n"
  proof cases
    case 1
    with r have "n \<noteq> 23 - j mod 8" by linarith
    with 1 show ?thesis by (simp add: bit_xor_single bit_be24)
  next
    case 2
    with r have "n \<noteq> 23 - j mod 8" by linarith
    with 2 show ?thesis by (simp add: bit_xor_single bit_be24)
  next
    case 3
    with r have "(n - 16 = 7 - j mod 8) = (n = 23 - j mod 8)" "n - 16 < 8" by linarith+
    with 3 show ?thesis by (simp add: bit_xor_single bit_be24 bit_xor_bitmask)
  next
    case 4
    with r have "n \<noteq> 23 - j mod 8" by linarith
    with 4 show ?thesis by (simp add: bit_xor_single bit_be24)
  qed
qed

lemma be24_flip_mid: "be24 a (b XOR bitmask j) c = be24 a b c XOR push_bit (15 - j mod 8) 1"
proof (rule bit_word_eqI)
  fix n assume "n < LENGTH(32)"
  have r: "j mod 8 < 8" by simp
  consider "n < 8" | "8 \<le> n" "n < 16" | "16 \<le> n" "n < 24" | "24 \<le> n" by linarith
  then show "bit (be24 a (b XOR bitmask j) c) n = bit (be24 a b c XOR push_bit (15 - j mod 8) 1) n"
  proof cases
    case 1
    with r have "n \<noteq> 15 - j mod 8" by linarith
    with 1 show ?thesis by (simp add: bit_xor_single bit_be24)
  next
    case 2
    with r have "(n - 8 = 7 - j mod 8) = (n = 15 - j mod 8)" "n - 8 < 8" by linarith+
    with 2 show ?thesis by (simp add: bit_xor_single bit_be24 bit_xor_bitmask)
  next
    case 3
    with r have "n \<noteq> 15 - j mod 8" by linarith
    with 3 show ?thesis by (simp add: bit_xor_single bit_be24)
  next
    case 4
    with r have "n \<noteq> 15 - j mod 8" by linarith
    with 4 show ?thesis by (simp add: bit_xor_single bit_be24)
  qed
qed

lemma be24_flip_lo: "be24 a b (c XOR bitmask j) = be24 a b c XOR push_bit (7 - j mod 8) 1"
proof (rule bit_word_eqI)
  fix n assume "n < LENGTH(32)"
  have r: "j mod 8 < 8" by simp
  consider "n < 8" | "8 \<le> n" by linarith
  then show "bit (be24 a b (c XOR bitmask j)) n = bit (be24 a b c XOR push_bit (7 - j mod 8) 1) n"
  proof cases
    case 1
    then show ?thesis by (simp add: bit_xor_single bit_be24 bit_xor_bitmask)
  next
    case 2
    with r have "n \<noteq> 7 - j mod 8" by linarith
    with 2 show ?thesis by (simp add: bit_xor_single bit_be24)
  qed
qed

lemma xor_eq_iff_syndrome: "(a = b) = (a XOR b = (0 :: u32))"
  by (metis xor_self_eq xor.assoc xor.right_neutral xor.left_neutral)

lemma flip_changes_syndrome:
  assumes b: "bits = 56 \<or> bits = 112" and len: "length aux = bits div 8" and k: "k < bits"
  shows "crc_field (flip_bit_copy aux k) bits XOR modeS_checksum (flip_bit_copy aux k) bits =
         (crc_field aux bits XOR modeS_checksum aux bits) XOR flip_syndrome bits k"
proof (cases "k < bits - 24")
  case True
  with b have "k div 8 < bits div 8 - 3" by auto
  then have "crc_field (flip_bit_copy aux k) bits = crc_field aux bits"
    by (simp add: crc_field_def flip_bit_copy_def)
  with True show ?thesis
    by (simp add: modeS_checksum_flip [OF b len k] flip_syndrome_def xor.assoc)
next
  case False
  with b k have "88 \<le> k + (112 - bits)" "k + (112 - bits) < 112" by auto
  then have "modeS_checksum_table ! (k + (112 - bits)) = 0" by (rule table_tail_zero)
  then have cs: "modeS_checksum (flip_bit_copy aux k) bits = modeS_checksum aux bits"
    by (simp add: modeS_checksum_flip [OF b len k])
  let ?n = "bits div 8"
  from False b k have "k div 8 = ?n - 3 \<or> k div 8 = ?n - 2 \<or> k div 8 = ?n - 1"
    by auto
  then consider "k div 8 = ?n - 3" | "k div 8 = ?n - 2" | "k div 8 = ?n - 1"
    by blast
  then have "crc_field (flip_bit_copy aux k) bits = crc_field aux bits XOR push_bit (bits - 1 - k) 1"
  proof cases
    case 1
    have "k = 8 * (k div 8) + k mod 8" by simp
    with 1 have "k = 8 * (?n - 3) + k mod 8" by simp
    with b have "bits - 1 - k = 23 - k mod 8" by auto
    with 1 b len show ?thesis
      by (auto simp add: crc_field_def flip_bit_copy_def be24_flip_hi)
  next
    case 2
    have "k = 8 * (k div 8) + k mod 8" by simp
    with 2 have "k = 8 * (?n - 2) + k mod 8" by simp
    with b have "bits - 1 - k = 15 - k mod 8" by auto
    with 2 b len show ?thesis
      by (auto simp add: crc_field_def flip_bit_copy_def be24_flip_mid)
  next
    case 3
    have "k = 8 * (k div 8) + k mod 8" by simp
    with 3 have "k = 8 * (?n - 1) + k mod 8" by simp
    with b have "bits - 1 - k = 7 - k mod 8" by auto
    with 3 b len show ?thesis
      by (auto simp add: crc_field_def flip_bit_copy_def be24_flip_lo)
  qed
  with cs False show ?thesis
    by (simp add: flip_syndrome_def xor.assoc xor.commute xor.left_commute)
qed

lemma fix_single_loop_fails:
  assumes b: "bits = 56 \<or> bits = 112" and len: "bits div 8 \<le> length m"
  shows "\<forall>k\<in>set js. k < bits \<and>
           flip_syndrome bits k \<noteq>
             crc_field (take (bits div 8) m) bits XOR modeS_checksum (take (bits div 8) m) bits \<Longrightarrow>
         fix_single_loop m bits js = (-1, m)"
proof (induction js)
  case Nil
  then show ?case by simp
next
  case (Cons k js)
  let ?aux = "take (bits div 8) m"
  from Cons.prems have k: "k < bits"
    and ne: "flip_syndrome bits k \<noteq> crc_field ?aux bits XOR modeS_checksum ?aux bits" by simp_all
  from len have l: "length ?aux = bits div 8" by simp
  have "crc_field (flip_bit_copy ?aux k) bits \<noteq> modeS_checksum (flip_bit_copy ?aux k) bits"
  proof
    assume "crc_field (flip_bit_copy ?aux k) bits = modeS_checksum (flip_bit_copy ?aux k) bits"
    then have "crc_field (flip_bit_copy ?aux k) bits XOR modeS_checksum (flip_bit_copy ?aux k) bits = 0"
      by simp
    then have "(crc_field ?aux bits XOR modeS_checksum ?aux bits) XOR flip_syndrome bits k = 0"
      by (simp only: flip_changes_syndrome [OF b l k])
    then have "crc_field ?aux bits XOR modeS_checksum ?aux bits = flip_syndrome bits k"
      by (simp only: xor_eq_iff_syndrome [symmetric])
    with ne show False by simp
  qed
  with Cons show ?case by (simp add: Let_def)
qed

lemma s1_frame_checksum: "modeS_checksum s1_frame 112 = 0x7E5EEA"
  by code_simp

lemma s1_frame_crc_field: "crc_field s1_frame 112 = 0x482211"
  by code_simp

lemma s1_frame_syndromes: "list_all (\<lambda>k. flip_syndrome 112 k \<noteq> 0x482211 XOR 0x7E5EEA) [0..<112]"
  by code_simp

lemma fix_s1_frame: "fix_single_bit_errors s1_frame 112 = (-1, s1_frame)"
proof -
  have t: "take (112 div 8) s1_frame = s1_frame" by (simp add: s1_frame_def)
  from s1_frame_syndromes have "\<forall>k\<in>set [0..<112]. flip_syndrome 112 k \<noteq> 0x482211 XOR 0x7E5EEA"
    by (simp only: list_all_iff)
  then have "\<forall>k\<in>set [0..<112]. k < (112::nat) \<and>
      flip_syndrome 112 k \<noteq>
        crc_field (take (112 div 8) s1_frame) 112 XOR modeS_checksum (take (112 div 8) s1_frame) 112"
    unfolding t s1_frame_checksum s1_frame_crc_field
    by (metis atLeastLessThan_iff set_upt)
  moreover have "(112::nat) = 56 \<or> (112::nat) = 112" by simp
  moreover have "112 div 8 \<le> length s1_frame" by (simp add: s1_frame_def)
  ultimately have "fix_single_loop s1_frame 112 [0..<112] = (-1, s1_frame)"
    using fix_single_loop_fails by blast
  then show ?thesis by (simp only: fix_single_bit_errors_def)
qed

section \<open>Properties of the tracker: the callsign\<close>

lemma decode_extended_squitter_ME:
  "ME_type (decode_extended_squitter m mm) = ME_type mm"
  by (simp add: decode_extended_squitter_def split: prod.splits)

lemma payload_fields_ME: "ME_type (payload_fields m mm) = ME_type mm"
  by (simp add: payload_fields_def Let_def decode_extended_squitter_ME split: prod.splits)

lemma payload_fields_flight:
  "msg_type mm = 17 \<Longrightarrow> 1 \<le> ME_type mm \<and> ME_type mm \<le> 4 \<Longrightarrow>
   flight (payload_fields m mm) = decode_flight m"
  by (simp add: payload_fields_def Let_def decode_extended_squitter_def)

lemma header_fields_msg: "msg (header_fields m t bits crc e ok) = m"
  by (simp add: header_fields_def zero_message_def)

lemma decode_stages:
  assumes "decode_modeS_message M modes now frame = (mm, modes')"
  obtains e m crc ok mm1 where
    "address_stage M modes now m
       (header_fields m (unat (drop_bit 3 (take 14 frame ! 0)))
          (modeS_message_len_by_type (unat (drop_bit 3 (take 14 frame ! 0)))) crc e ok) = (mm1, modes')"
    and "mm = (payload_fields m mm1)\<lparr>phase_corrected := False\<rparr>"
  using assms by (auto simp add: decode_modeS_message_def Let_def split: prod.splits)

lemma decode_flight_field:
  assumes d: "decode_modeS_message M modes now frame = (mm, modes')"
    and t: "msg_type mm = 17" and me: "1 \<le> ME_type mm \<and> ME_type mm \<le> 4"
  shows "flight mm = decode_flight (msg mm)"
proof -
  from d obtain e m crc ok mm1 where
    a: "address_stage M modes now m
       (header_fields m (unat (drop_bit 3 (take 14 frame ! 0)))
          (modeS_message_len_by_type (unat (drop_bit 3 (take 14 frame ! 0)))) crc e ok) = (mm1, modes')"
    and mm: "mm = (payload_fields m mm1)\<lparr>phase_corrected := False\<rparr>"
    by (rule decode_stages)
  from mm t me have t1: "msg_type mm1 = 17" and me1: "1 \<le> ME_type mm1 \<and> ME_type mm1 \<le> 4"
    by (simp_all add: payload_fields_keeps payload_fields_ME)
  from address_stage_keeps(3) [OF a] have "msg mm1 = m" by (simp add: header_fields_msg)
  with mm have "msg mm = m" by (simp add: payload_fields_keeps)
  moreover from mm have "flight mm = decode_flight m"
    by (simp add: payload_fields_flight [OF t1 me1])
  ultimately show ?thesis by simp
qed

lemma AIS_charset_no_NUL: "list_all (\<lambda>c. c \<noteq> NUL) AIS_charset"
  by code_simp

lemma AIS_char: "k < 64 \<Longrightarrow> AIS_charset ! k \<noteq> NUL"
  using AIS_charset_no_NUL by (simp add: list_all_length AIS_charset_def)

lemma six_bit_index:
  fixes w :: u32
  assumes "\<And>n. 6 \<le> n \<Longrightarrow> \<not> bit w n"
  shows "unat w < 64"
proof -
  have "w AND 63 = w"
  proof (rule bit_word_eqI)
    fix n assume "n < LENGTH(32)"
    have "bit (mask 6 :: u32) n = (n < 6)" by (auto simp add: bit_mask_iff)
    moreover have "(mask 6 :: u32) = 63" by (simp add: mask_eq_exp_minus_1)
    ultimately have "bit (63 :: u32) n = (n < 6)" by (simp only:)
    with assms [of n] show "bit (w AND 63) n = bit w n" by (auto simp add: bit_and_iff)
  qed
  then have "w \<le> 63" by (metis word_and_le1)
  then have "unat w \<le> 63" by (simp add: word_le_nat_alt)
  then show ?thesis by simp
qed

lemma bit_byte_at: "bit (byte_at m k) n = (n < 8 \<and> bit (m ! k) n)"
  by (auto simp add: byte_at_def bit_simps dest: bit_imp_le_length)

lemma flight_indices:
  "unat (drop_bit 2 (byte_at m k)) < 64"
  "unat (push_bit 4 (byte_at m k AND 3) OR drop_bit 4 (byte_at m k')) < 64"
  "unat (push_bit 2 (byte_at m k AND 15) OR drop_bit 6 (byte_at m k')) < 64"
  "unat (byte_at m k AND 63) < 64"
proof -
  have m3: "bit (3 :: u32) n = (n < 2)" for n
  proof -
    have "bit (mask 2 :: u32) n = (n < 2)" by (auto simp add: bit_mask_iff)
    moreover have "(mask 2 :: u32) = 3" by (simp add: mask_eq_exp_minus_1)
    ultimately show ?thesis by (simp only:)
  qed
  have m15: "bit (15 :: u32) n = (n < 4)" for n
  proof -
    have "bit (mask 4 :: u32) n = (n < 4)" by (auto simp add: bit_mask_iff)
    moreover have "(mask 4 :: u32) = 15" by (simp add: mask_eq_exp_minus_1)
    ultimately show ?thesis by (simp only:)
  qed
  have m63: "bit (63 :: u32) n = (n < 6)" for n
  proof -
    have "bit (mask 6 :: u32) n = (n < 6)" by (auto simp add: bit_mask_iff)
    moreover have "(mask 6 :: u32) = 63" by (simp add: mask_eq_exp_minus_1)
    ultimately show ?thesis by (simp only:)
  qed
  have i3: "bit (3 :: int) n = (n < 2)" for n
  proof -
    have "bit (mask 2 :: int) n = (n < 2)" by (auto simp add: bit_mask_iff)
    moreover have "(mask 2 :: int) = 3" by (simp add: mask_eq_exp_minus_1)
    ultimately show ?thesis by (simp only:)
  qed
  have i15: "bit (15 :: int) n = (n < 4)" for n
  proof -
    have "bit (mask 4 :: int) n = (n < 4)" by (auto simp add: bit_mask_iff)
    moreover have "(mask 4 :: int) = 15" by (simp add: mask_eq_exp_minus_1)
    ultimately show ?thesis by (simp only:)
  qed
  have i63: "bit (63 :: int) n = (n < 6)" for n
  proof -
    have "bit (mask 6 :: int) n = (n < 6)" by (auto simp add: bit_mask_iff)
    moreover have "(mask 6 :: int) = 63" by (simp add: mask_eq_exp_minus_1)
    ultimately show ?thesis by (simp only:)
  qed
  show "unat (drop_bit 2 (byte_at m k)) < 64"
    by (rule six_bit_index) (simp add: bit_simps bit_byte_at)
  show "unat (push_bit 4 (byte_at m k AND 3) OR drop_bit 4 (byte_at m k')) < 64"
    by (rule six_bit_index) (auto simp add: bit_simps bit_byte_at m3 i3 simp del: push_bit_and)
  show "unat (push_bit 2 (byte_at m k AND 15) OR drop_bit 6 (byte_at m k')) < 64"
    by (rule six_bit_index) (auto simp add: bit_simps bit_byte_at m15 i15 simp del: push_bit_and)
  show "unat (byte_at m k AND 63) < 64"
    by (rule six_bit_index) (auto simp add: bit_simps m63 i63)
qed

lemma c_string_decode_flight: "c_string (decode_flight m) = take 8 (decode_flight m)"
  by (simp add: c_string_def decode_flight_def AIS_char flight_indices del: push_bit_and)

lemma decode_flight_shape: "length (decode_flight m) = 9" "decode_flight m ! 8 = NUL"
  by (simp_all add: decode_flight_def)

lemma remove_trailing_spaces_terminated:
  "s ! 8 \<noteq> CHR '' '' \<Longrightarrow> remove_trailing_spaces 8 s = s"
  by (simp add: eval_nat_numeral)

lemma receive_identification:
  assumes "CRC_ok mm \<and> msg_type mm = 17 \<and> 1 \<le> ME_type mm \<and> ME_type mm \<le> 4"
  shows "interactive_receive_data mm now (Some a) =
         Some (a\<lparr>seen_last := now, messages := messages a + 1,
                 a_flight := remove_trailing_spaces 8 (take 9 (flight mm))\<rparr>)"
  using assms by (simp add: interactive_receive_data_def Let_def)

text \<open>
  \<^bold>\<open>C8, as the code has it.\<close> For every DF17 message of ME type 1 to 4 that the decoder
  hands to the tracker with a good CRC, the text of the aircraft's flight field afterwards
  and the 8-character AIS-decoded callsign of the message are the same up to trailing
  spaces. (Whether the stored text still carries the trailing spaces is not part of this
  statement; see \<open>trailing_space_kept\<close> below for what the loop of the source does.)
\<close>

theorem flight_stored_up_to_trailing_spaces:
  assumes "decode_modeS_message M modes t frame = (mm, modes')"
    and "CRC_ok mm \<and> msg_type mm = 17 \<and> 1 \<le> ME_type mm \<and> ME_type mm \<le> 4"
  shows "\<exists>a'. interactive_receive_data mm now (Some a) = Some a' \<and>
              rstrip (c_string (a_flight a')) = rstrip (take 8 (decode_flight (msg mm)))"
proof -
  from assms have f: "flight mm = decode_flight (msg mm)"
    by (intro decode_flight_field [OF assms(1)]) simp_all
  have nul: "NUL \<noteq> CHR '' ''" by (simp add: NUL_def)
  have "remove_trailing_spaces 8 (take 9 (flight mm)) = decode_flight (msg mm)"
    using nul by (simp add: f decode_flight_shape remove_trailing_spaces_terminated)
  then show ?thesis
    by (simp add: receive_identification [OF assms(2)] c_string_decode_flight)
qed

lemma decode_valid_DF17:
  assumes "length frame = 14" and "unat (drop_bit 3 (frame ! 0)) = 17"
    and "crc_field frame 112 = modeS_checksum frame 112"
  shows "decode_modeS_message M modes now frame =
     ((payload_fields frame (header_fields frame 17 112 (crc_field frame 112) (-1) True))
        \<lparr>phase_corrected := False\<rparr>,
      modes\<lparr>ICAO_cache := ICAO_cache_add_address M (ICAO_cache modes)
               (aircraft_get_addr (frame ! 1) (frame ! 2) (frame ! 3)) now\<rparr>)"
  using assms
  by (simp add: decode_modeS_message_def Let_def len_by_type_17 crc_stage_def
      address_stage_def header_fields_sel)

lemma decode_unfixable_DF17:
  assumes "length frame = 14" and "unat (drop_bit 3 (frame ! 0)) = 17"
    and "crc_field frame 112 \<noteq> modeS_checksum frame 112"
    and "fix_single_bit_errors frame 112 = (-1, frame)"
    and "\<not> aggressive modes"
  shows "decode_modeS_message M modes now frame =
     ((payload_fields frame (header_fields frame 17 112 (crc_field frame 112) (-1) False))
        \<lparr>phase_corrected := False\<rparr>, modes)"
  using assms
  by (simp add: decode_modeS_message_def Let_def len_by_type_17 crc_stage_def
      address_stage_def header_fields_sel)

lemma header_fields_ME:
  "ME_type (header_fields m t bits crc e ok) = unat (drop_bit 3 (byte_at m 4))"
  by (simp add: header_fields_def zero_message_def)

lemma s1_frame_sealed_passes: "crc_field s1_frame_sealed 112 = modeS_checksum s1_frame_sealed 112"
  by code_simp

lemma s1_frame_sealed_flight: "take 8 (decode_flight s1_frame_sealed) = ''JTA36XPG''"
  by code_simp

lemma klm_frame_flight: "decode_flight klm_frame = ''KLM1023 '' @ [NUL]"
  by code_simp

lemma decode_s1_frame:
  "decode_modeS_message M modes0 now s1_frame =
     ((payload_fields s1_frame (header_fields s1_frame 17 112 (crc_field s1_frame 112) (-1) False))
        \<lparr>phase_corrected := False\<rparr>, modes0)"
proof -
  have "length s1_frame = 14" "unat (drop_bit 3 (s1_frame ! 0)) = 17"
    by (simp_all add: s1_frame_def)
  moreover have "crc_field s1_frame 112 \<noteq> modeS_checksum s1_frame 112"
    by (simp add: s1_frame_checksum s1_frame_crc_field)
  moreover note fix_s1_frame
  moreover have "\<not> aggressive modes0" by (simp add: modes0_def)
  ultimately show ?thesis by (rule decode_unfixable_DF17)
qed

text \<open>
  \<^bold>\<open>C8, as stated, fails.\<close> The frame \<^verbatim>\<open>8D 4B 96 96 20 29 40 73 D9 84 07 48 22 11\<close> does not
  pass the CRC check (its first 88 bits have the checksum \<^verbatim>\<open>7E5EEA\<close>, not \<^verbatim>\<open>482211\<close>), no
  single-bit flip repairs it, and the tracker returns without touching any record: no
  flight is stored.
\<close>

theorem s1_frame_not_accepted:
  "\<not> CRC_ok (fst (decode_modeS_message M1024 modes0 1000 s1_frame)) \<and>
   interactive_receive_data (fst (decode_modeS_message M1024 modes0 1000 s1_frame)) 5000
     (Some (new_aircraft 0x4B9696 5000)) = None"
  by (simp add: decode_s1_frame payload_fields_keeps header_fields_sel interactive_receive_data_def)

lemma decode_s1_frame_sealed:
  "decode_modeS_message M modes now s1_frame_sealed =
     ((payload_fields s1_frame_sealed
         (header_fields s1_frame_sealed 17 112 (crc_field s1_frame_sealed 112) (-1) True))
        \<lparr>phase_corrected := False\<rparr>,
      modes\<lparr>ICAO_cache := ICAO_cache_add_address M (ICAO_cache modes)
               (aircraft_get_addr (s1_frame_sealed ! 1) (s1_frame_sealed ! 2) (s1_frame_sealed ! 3)) now\<rparr>)"
proof -
  have "length s1_frame_sealed = 14" "unat (drop_bit 3 (s1_frame_sealed ! 0)) = 17"
    by (simp_all add: s1_frame_sealed_def)
  then show ?thesis using s1_frame_sealed_passes by (rule decode_valid_DF17)
qed

theorem flight_stored_witness:
  "\<exists>a'. interactive_receive_data (fst (decode_modeS_message M1024 modes0 1000 s1_frame_sealed)) 5000
           (Some (new_aircraft 0x4B9696 5000)) = Some a' \<and>
         rstrip (c_string (a_flight a')) = ''JTA36XPG''"
proof -
  obtain mm modes' where d: "decode_modeS_message M1024 modes0 1000 s1_frame_sealed = (mm, modes')"
    by (cases "decode_modeS_message M1024 modes0 1000 s1_frame_sealed")
  then have mm: "mm = (payload_fields s1_frame_sealed
         (header_fields s1_frame_sealed 17 112 (crc_field s1_frame_sealed 112) (-1) True))
        \<lparr>phase_corrected := False\<rparr>"
    by (simp add: decode_s1_frame_sealed)
  have me: "unat (drop_bit 3 (byte_at s1_frame_sealed 4)) = 4"
    by (simp add: byte_at_def s1_frame_sealed_def)
  have h: "CRC_ok mm \<and> msg_type mm = 17 \<and> 1 \<le> ME_type mm \<and> ME_type mm \<le> 4"
    by (simp add: mm payload_fields_keeps payload_fields_ME header_fields_sel header_fields_ME me)
  have m: "msg mm = s1_frame_sealed"
    by (simp add: mm payload_fields_keeps header_fields_msg)
  have "rstrip (take 8 (decode_flight (msg mm))) = ''JTA36XPG''"
    by (simp add: m s1_frame_sealed_flight rstrip_def)
  with flight_stored_up_to_trailing_spaces [OF d h, of 5000 "new_aircraft 0x4B9696 5000"] d
  show ?thesis by simp
qed

text \<open>
  The loop that removes trailing spaces starts at index \<open>sizeof (a->flight) - 1 = 8\<close>, the
  terminating NUL of the callsign, and so stops at once: a callsign that ends in a space
  keeps it.
\<close>

lemma trailing_space_kept:
  "interactive_receive_data (fst (decode_modeS_message M1024 modes0 1000 klm_frame)) 5000
     (Some (new_aircraft 0x4840D6 5000)) = Some a' \<Longrightarrow>
   c_string (a_flight a') = ''KLM1023 ''"
proof -
  let ?mm = "(payload_fields klm_frame (header_fields klm_frame 17 112 0x576098 (-1) True))
        \<lparr>phase_corrected := False\<rparr>"
  assume r: "interactive_receive_data (fst (decode_modeS_message M1024 modes0 1000 klm_frame)) 5000
     (Some (new_aircraft 0x4840D6 5000)) = Some a'"
  have me: "unat (drop_bit 3 (byte_at klm_frame 4)) = 4"
    by (simp add: byte_at_def klm_frame_def)
  have h: "CRC_ok ?mm \<and> msg_type ?mm = 17 \<and> 1 \<le> ME_type ?mm \<and> ME_type ?mm \<le> 4"
    by (simp add: payload_fields_keeps payload_fields_ME header_fields_sel header_fields_ME me)
  have t: "msg_type (header_fields klm_frame 17 112 0x576098 (-1) True) = 17"
    "1 \<le> ME_type (header_fields klm_frame 17 112 0x576098 (-1) True) \<and>
     ME_type (header_fields klm_frame 17 112 0x576098 (-1) True) \<le> 4"
    by (simp_all add: header_fields_sel header_fields_ME me)
  have f: "flight ?mm = ''KLM1023 '' @ [NUL]"
    by (simp add: payload_fields_flight [OF t] klm_frame_flight)
  have "remove_trailing_spaces 8 (''KLM1023 '' @ [NUL]) = ''KLM1023 '' @ [NUL]"
    by (simp add: eval_nat_numeral NUL_def)
  with r show ?thesis
    by (auto simp add: decode_klm_frame receive_identification [OF h] f c_string_def NUL_def)
qed

section \<open>Properties of the tracker: the position\<close>

lemma decode_CPR_keeps:
  "odd_CPR_time (decode_CPR a) = odd_CPR_time a"
  "even_CPR_time (decode_CPR a) = even_CPR_time a"
  "odd_CPR_lat (decode_CPR a) = odd_CPR_lat a"
  "even_CPR_lat (decode_CPR a) = even_CPR_lat a"
  "odd_CPR_lon (decode_CPR a) = odd_CPR_lon a"
  "even_CPR_lon (decode_CPR a) = even_CPR_lon a"
  by (simp_all add: decode_CPR_def Let_def)

lemma cpr_rlat_decode_CPR:
  "cpr_rlat0 (decode_CPR a) = cpr_rlat0 a" "cpr_rlat1 (decode_CPR a) = cpr_rlat1 a"
  by (simp_all add: cpr_rlat0_def cpr_rlat1_def cpr_j_def decode_CPR_keeps)

lemma decode_CPR_position:
  "position (decode_CPR a) \<noteq> position a \<Longrightarrow> CPR_NL_func (cpr_rlat0 a) = CPR_NL_func (cpr_rlat1 a)"
  by (auto simp add: decode_CPR_def Let_def split: if_splits)

lemma receive_position_changes:
  assumes "position (receive_position mm now a) \<noteq> position a"
  shows "\<bar>sint (even_CPR_time (receive_position mm now a) - odd_CPR_time (receive_position mm now a))\<bar>
           \<le> 600000 \<and>
         CPR_NL_func (cpr_rlat0 (receive_position mm now a)) =
         CPR_NL_func (cpr_rlat1 (receive_position mm now a))"
proof -
  define a2 where "a2 = (if odd_flag mm \<noteq> 0
                then a\<lparr>a_altitude := altitude mm, odd_CPR_lat := int (raw_latitude mm),
                        odd_CPR_lon := int (raw_longitude mm), odd_CPR_time := now\<rparr>
                else a\<lparr>a_altitude := altitude mm, even_CPR_lat := int (raw_latitude mm),
                        even_CPR_lon := int (raw_longitude mm), even_CPR_time := now\<rparr>)"
  have p2: "position a2 = position a" by (simp add: a2_def)
  have r: "receive_position mm now a =
      (if \<bar>sint (even_CPR_time a2 - odd_CPR_time a2)\<bar> \<le> 600000 then decode_CPR a2 else a2)"
    by (simp add: receive_position_def Let_def a2_def)
  show ?thesis
  proof (cases "\<bar>sint (even_CPR_time a2 - odd_CPR_time a2)\<bar> \<le> 600000")
    case True
    with r have d: "receive_position mm now a = decode_CPR a2" by simp
    with assms p2 have "position (decode_CPR a2) \<noteq> position a2" by simp
    then have "CPR_NL_func (cpr_rlat0 a2) = CPR_NL_func (cpr_rlat1 a2)"
      by (rule decode_CPR_position)
    with True show ?thesis by (simp add: d decode_CPR_keeps cpr_rlat_decode_CPR)
  next
    case False
    with r assms p2 show ?thesis by simp
  qed
qed

text \<open>
  \<^bold>\<open>C1, as the code has it.\<close> Whenever the tracker changes the position of a record, the
  message is a DF17 airborne position message, the even and the odd time stored in the
  record afterwards are at most 600000 milliseconds apart, and the zone numbers of the two
  candidate latitudes \<open>rlat0\<close> and \<open>rlat1\<close> agree. Read the other way round: if one of
  these fails, the position is left as it was. Nothing in the code asks for both fixes to
  have been received; the time of a fix never received is the 0 the record starts with.
\<close>

theorem position_assigned_only_when:
  assumes "interactive_receive_data mm now (Some a) = Some a'"
    and "position a' \<noteq> position a"
  shows "msg_type mm = 17 \<and>
         ((9 \<le> ME_type mm \<and> ME_type mm \<le> 18) \<or> (20 \<le> ME_type mm \<and> ME_type mm \<le> 22)) \<and>
         \<bar>sint (even_CPR_time a' - odd_CPR_time a')\<bar> \<le> 600000 \<and>
         CPR_NL_func (cpr_rlat0 a') = CPR_NL_func (cpr_rlat1 a')"
proof -
  define a2 where "a2 = (let a1 = a\<lparr>seen_last := now, messages := messages a + 1\<rparr>
     in if msg_type mm = 5 \<or> msg_type mm = 21
        then (if identity mm \<noteq> 0 then a1\<lparr>a_identity := identity mm\<rparr>
              else a1\<lparr>a_identity := 0\<rparr>)
        else a1)"
  have p2: "position a2 = position a" by (simp add: a2_def Let_def)
  from assms(1) have ok: "CRC_ok mm"
    by (simp add: interactive_receive_data_def split: if_splits)
  have pos: "msg_type mm = 17 \<and> \<not> (1 \<le> ME_type mm \<and> ME_type mm \<le> 4) \<and>
       ((9 \<le> ME_type mm \<and> ME_type mm \<le> 18) \<or> (20 \<le> ME_type mm \<and> ME_type mm \<le> 22))"
  proof (rule ccontr)
    assume "\<not> ?thesis"
    with assms(1) ok have "position a' = position a2"
      by (auto simp add: interactive_receive_data_def Let_def a2_def split: if_splits)
    with p2 assms(2) show False by simp
  qed
  with assms(1) ok have a': "a' = receive_position mm now a2"
    by (auto simp add: interactive_receive_data_def Let_def a2_def)
  with assms(2) p2 have "position (receive_position mm now a2) \<noteq> position a2" by simp
  from receive_position_changes [OF this] pos a' show ?thesis by simp
qed

lemma even_frame_passes: "crc_field even_frame 112 = modeS_checksum even_frame 112"
  by code_simp

lemma odd_frame_passes: "crc_field odd_frame 112 = modeS_checksum odd_frame 112"
  by code_simp

lemma position_fields:
  assumes "msg_type mm = 17" "9 \<le> ME_type mm \<and> ME_type mm \<le> 18"
  shows "odd_flag (payload_fields m mm) = unat (byte_at m 6 AND push_bit 2 1)"
    and "raw_latitude (payload_fields m mm) =
           unat (push_bit 15 (byte_at m 6 AND 3) OR push_bit 7 (byte_at m 7) OR drop_bit 1 (byte_at m 8))"
    and "raw_longitude (payload_fields m mm) =
           unat (push_bit 16 (byte_at m 8 AND 1) OR push_bit 8 (byte_at m 9) OR byte_at m 10)"
  using assms
  by (simp_all add: payload_fields_def Let_def decode_extended_squitter_def split: prod.splits)

lemma even_frame_fields:
  "unat (drop_bit 3 (byte_at even_frame 4)) = 11"
  "unat (byte_at even_frame 6 AND push_bit 2 1) = 0"
  "unat (push_bit 15 (byte_at even_frame 6 AND 3) OR push_bit 7 (byte_at even_frame 7) OR
         drop_bit 1 (byte_at even_frame 8)) = 93000"
  "unat (push_bit 16 (byte_at even_frame 8 AND 1) OR push_bit 8 (byte_at even_frame 9) OR
         byte_at even_frame 10) = 51372"
  by (simp_all add: byte_at_def even_frame_def)

lemma odd_frame_fields:
  "unat (drop_bit 3 (byte_at odd_frame 4)) = 11"
  "unat (byte_at odd_frame 6 AND push_bit 2 1) = 4"
  "unat (push_bit 15 (byte_at odd_frame 6 AND 3) OR push_bit 7 (byte_at odd_frame 7) OR
         drop_bit 1 (byte_at odd_frame 8)) = 74158"
  "unat (push_bit 16 (byte_at odd_frame 8 AND 1) OR push_bit 8 (byte_at odd_frame 9) OR
         byte_at odd_frame 10) = 50194"
  by (simp_all add: byte_at_def odd_frame_def)

lemma receive_airborne_position:
  assumes "CRC_ok mm \<and> msg_type mm = 17 \<and> 9 \<le> ME_type mm \<and> ME_type mm \<le> 18"
  shows "interactive_receive_data mm now (Some a) =
         Some (receive_position mm now (a\<lparr>seen_last := now, messages := messages a + 1\<rparr>))"
  using assms by (simp add: interactive_receive_data_def Let_def)

lemma even_only_position:
  assumes "odd_flag mm = 0" "raw_latitude mm = 93000" "raw_longitude mm = 51372"
  shows "position (receive_position mm 1000 ((new_aircraft x 1000)\<lparr>seen_last := 1000, messages := 1\<rparr>)) =
         \<lparr>lon = 577935 / 4096, lat = 2099259 / 8192\<rparr>"
  using assms
  by (simp add: receive_position_def Let_def new_aircraft_def decode_CPR_def cpr_rlat0_def
      cpr_rlat1_def cpr_j_def CPR_mod_func_def c_rem_def CPR_NL_func_def CPR_N_func_def
      CPR_Dlong_func_def)

lemma decode_valid_position:
  assumes "length frame = 14" and "unat (drop_bit 3 (frame ! 0)) = 17"
    and "crc_field frame 112 = modeS_checksum frame 112"
    and "unat (drop_bit 3 (byte_at frame 4)) = 11"
  shows "CRC_ok (fst (decode_modeS_message M modes now frame)) \<and>
         msg_type (fst (decode_modeS_message M modes now frame)) = 17 \<and>
         ME_type (fst (decode_modeS_message M modes now frame)) = 11"
    and "odd_flag (fst (decode_modeS_message M modes now frame)) =
           unat (byte_at frame 6 AND push_bit 2 1)"
    and "raw_latitude (fst (decode_modeS_message M modes now frame)) =
           unat (push_bit 15 (byte_at frame 6 AND 3) OR push_bit 7 (byte_at frame 7) OR
                 drop_bit 1 (byte_at frame 8))"
    and "raw_longitude (fst (decode_modeS_message M modes now frame)) =
           unat (push_bit 16 (byte_at frame 8 AND 1) OR push_bit 8 (byte_at frame 9) OR
                 byte_at frame 10)"
proof -
  let ?h = "header_fields frame 17 112 (crc_field frame 112) (-1) True"
  have t: "msg_type ?h = 17" "9 \<le> ME_type ?h \<and> ME_type ?h \<le> 18"
    using assms(4) by (simp_all add: header_fields_sel header_fields_ME)
  note d = decode_valid_DF17 [OF assms(1-3)]
  show "CRC_ok (fst (decode_modeS_message M modes now frame)) \<and>
         msg_type (fst (decode_modeS_message M modes now frame)) = 17 \<and>
         ME_type (fst (decode_modeS_message M modes now frame)) = 11"
    using assms(4)
    by (simp add: d payload_fields_keeps payload_fields_ME header_fields_sel header_fields_ME)
  show "odd_flag (fst (decode_modeS_message M modes now frame)) =
           unat (byte_at frame 6 AND push_bit 2 1)"
    by (simp add: d position_fields(1) [OF t] del: push_bit_and)
  show "raw_latitude (fst (decode_modeS_message M modes now frame)) =
           unat (push_bit 15 (byte_at frame 6 AND 3) OR push_bit 7 (byte_at frame 7) OR
                 drop_bit 1 (byte_at frame 8))"
    by (simp add: d position_fields(2) [OF t] del: push_bit_and)
  show "raw_longitude (fst (decode_modeS_message M modes now frame)) =
           unat (push_bit 16 (byte_at frame 8 AND 1) OR push_bit 8 (byte_at frame 9) OR
                 byte_at frame 10)"
    by (simp add: d position_fields(3) [OF t] del: push_bit_and)
qed

lemma even_frame_shape: "length even_frame = 14" "unat (drop_bit 3 (even_frame ! 0)) = 17"
  by (simp_all add: even_frame_def)

lemma odd_frame_shape: "length odd_frame = 14" "unat (drop_bit 3 (odd_frame ! 0)) = 17"
  by (simp_all add: odd_frame_def)

lemma even_message_fields:
  "CRC_ok even_message \<and> msg_type even_message = 17 \<and> ME_type even_message = 11"
  "odd_flag even_message = 0" "raw_latitude even_message = 93000"
  "raw_longitude even_message = 51372"
  unfolding even_message_def
  by (simp_all only: decode_valid_position [OF even_frame_shape even_frame_passes even_frame_fields(1)]
      even_frame_fields)

lemma odd_message_fields:
  "CRC_ok odd_message \<and> msg_type odd_message = 17 \<and> ME_type odd_message = 11"
  "odd_flag odd_message = 4" "raw_latitude odd_message = 74158"
  "raw_longitude odd_message = 50194"
  unfolding odd_message_def
  by (simp_all only: decode_valid_position [OF odd_frame_shape odd_frame_passes odd_frame_fields(1)]
      odd_frame_fields)

lemma receive_even_message:
  "interactive_receive_data even_message now (Some a) =
     Some (receive_position even_message now (a\<lparr>seen_last := now, messages := messages a + 1\<rparr>))"
  using even_message_fields(1) by (intro receive_airborne_position) simp

lemma receive_odd_message:
  "interactive_receive_data odd_message now (Some a) =
     Some (receive_position odd_message now (a\<lparr>seen_last := now, messages := messages a + 1\<rparr>))"
  using odd_message_fields(1) by (intro receive_airborne_position) simp

text \<open>
  \<^bold>\<open>C1, as stated, fails.\<close> A record created 1000 milliseconds after the clock's zero
  receives the even frame at once. No odd fix has been received (its time is still 0), the
  two times are 1000 milliseconds apart, both candidate latitudes fall in zone 1, and the
  position is assigned: latitude \<open>2099259 / 8192\<close> (about 256.3), longitude about 141.1.
\<close>

theorem position_from_even_fix_alone:
  "map_option position
     (interactive_receive_data even_message 1000 (Some (new_aircraft 0x40621D 1000))) =
     Some \<lparr>lon = 577935 / 4096, lat = 2099259 / 8192\<rparr> \<and>
   map_option odd_CPR_time
     (interactive_receive_data even_message 1000 (Some (new_aircraft 0x40621D 1000))) = Some 0 \<and>
   position (new_aircraft 0x40621D 1000) = \<lparr>lon = 0, lat = 0\<rparr>"
proof -
  have "messages (new_aircraft 0x40621D 1000) + 1 = 1" by (simp add: new_aircraft_def)
  then have r: "interactive_receive_data even_message 1000 (Some (new_aircraft 0x40621D 1000)) =
      Some (receive_position even_message 1000
              ((new_aircraft 0x40621D 1000)\<lparr>seen_last := 1000, messages := 1\<rparr>))"
    by (simp add: receive_even_message)
  have "odd_CPR_time (receive_position even_message 1000
              ((new_aircraft 0x40621D 1000)\<lparr>seen_last := 1000, messages := 1\<rparr>)) = 0"
    by (simp add: receive_position_def Let_def even_message_fields decode_CPR_keeps new_aircraft_def)
  then show ?thesis
    by (simp add: r even_only_position [OF even_message_fields(2-4)]) (simp add: new_aircraft_def)
qed

lemma tracked_even_eq:
  "tracked_even = (new_aircraft 0x40621D 700000)
     \<lparr>seen_last := 700000, messages := 1, a_altitude := altitude even_message,
      even_CPR_lat := 93000, even_CPR_lon := 51372, even_CPR_time := 700000\<rparr>"
  by (simp add: tracked_even_def receive_even_message receive_position_def Let_def
      even_message_fields new_aircraft_def)

lemma tracked_both_position:
  "position tracked_both = \<lparr>lon = 225873 / 57344, lat = 25261515 / 483328\<rparr>"
  by (simp add: tracked_both_def receive_odd_message tracked_even_eq receive_position_def Let_def
      odd_message_fields new_aircraft_def decode_CPR_def cpr_rlat0_def
      cpr_rlat1_def cpr_j_def CPR_mod_func_def c_rem_def CPR_NL_func_def CPR_N_func_def
      CPR_Dlong_func_def)

theorem position_assigned_witness:
  "position tracked_both \<noteq> position tracked_even \<and>
   msg_type odd_message = 17 \<and>
   \<bar>sint (even_CPR_time tracked_both - odd_CPR_time tracked_both)\<bar> \<le> 600000 \<and>
   CPR_NL_func (cpr_rlat0 tracked_both) = CPR_NL_func (cpr_rlat1 tracked_both)"
proof -
  have r: "interactive_receive_data odd_message 710000 (Some tracked_even) = Some tracked_both"
    by (simp add: tracked_both_def receive_odd_message)
  have "position tracked_even = \<lparr>lon = 0, lat = 0\<rparr>"
    by (simp add: tracked_even_eq new_aircraft_def)
  then have p: "position tracked_both \<noteq> position tracked_even"
    by (simp add: tracked_both_position)
  from position_assigned_only_when [OF r p] p show ?thesis by simp
qed

section \<open>Properties of the demodulator\<close>

subsection \<open>The bit slicer\<close>

lemma slice_bit_error_only_first: "0 < i \<Longrightarrow> \<not> snd (slice_bit i low high prev)"
  by (simp add: slice_bit_def Let_def)

lemma slice_bit_first: "snd (slice_bit 0 low high prev) = (low = high)"
  by (simp add: slice_bit_def Let_def)

lemma slice_step_errors:
  "snd (slice_step m base k acc) =
     snd acc + (if k = 0 \<and> sample m base = sample m (base + 1) then 1 else 0)"
proof (cases "k = 0")
  case True
  then show ?thesis
    by (simp add: slice_step_def Let_def slice_bit_first MODES_SHORT_MSG_BITS_def)
next
  case False
  then have "0 < 2 * k" by simp
  then have "\<not> snd (slice_bit (2 * k) (sample m (base + 2 * k)) (sample m (base + 2 * k + 1))
      (fst acc ! (k - 1)))"
    by (rule slice_bit_error_only_first)
  with False show ?thesis by (simp add: slice_step_def Let_def)
qed

lemma slice_loop_errors:
  "0 \<notin> set ks \<Longrightarrow> snd (slice_loop m base ks acc) = snd acc"
  by (induction ks arbitrary: acc) (auto simp add: slice_step_errors)

lemma slice_bits_errors:
  "snd (slice_bits m j) =
     (if sample m (j + 2 * MODES_PREAMBLE_US) = sample m (j + 2 * MODES_PREAMBLE_US + 1) then 1 else 0)"
proof -
  have "[0..<MODES_LONG_MSG_BITS] = 0 # [1..<MODES_LONG_MSG_BITS]"
    by (simp add: MODES_LONG_MSG_BITS_def upt_conv_Cons)
  moreover have "0 \<notin> set [1..<MODES_LONG_MSG_BITS]" by simp
  ultimately show ?thesis
    by (simp add: slice_bits_def slice_loop_errors slice_step_errors)
qed

text \<open>
  \<^bold>\<open>C10.\<close> For a sample index \<open>i > 0\<close> the slicer never takes the step marked as an error:
  equal samples are less than 256 apart, and that test comes first. So the error counter of
  the slicer is at most 1, for every buffer and position, and it is 1 exactly when the two
  samples of the first bit are equal. Hence the rule \<^verbatim>\<open>errors == 0 || (aggressive && errors <= 2)\<close>
  accepts exactly what "no error, or in aggressive mode one error, in the first bit"
  accepts.
\<close>

theorem slicer_errors_at_most_one:
  "(0 < i \<longrightarrow> \<not> snd (slice_bit i low high prev)) \<and>
   snd (slice_bits m j) \<le> 1 \<and>
   ((snd (slice_bits m j) = 0 \<or> (aggr \<and> snd (slice_bits m j) \<le> 2)) \<longleftrightarrow>
    (snd (slice_bits m j) = 0 \<or>
     (aggr \<and> snd (slice_bits m j) = 1 \<and>
      sample m (j + 2 * MODES_PREAMBLE_US) = sample m (j + 2 * MODES_PREAMBLE_US + 1))))"
  by (simp add: slice_bit_error_only_first slice_bits_errors)

theorem slicer_errors_witness:
  "\<not> snd (slice_bit 2 7 7 1) \<and> snd (slice_bits (replicate 241 5) 0) \<le> 1"
  using slicer_errors_at_most_one [of 2 7 7 1 "replicate 241 5" 0 True] by simp

subsection \<open>The window saved for the phase correction\<close>

lemma phase_loop_outside:
  "\<forall>k\<in>set ks. k + 2 < w \<Longrightarrow>
   length (phase_loop base ks m) = length m \<and>
   take base (phase_loop base ks m) = take base m \<and>
   drop (base + w) (phase_loop base ks m) = drop (base + w) m"
proof (induction ks arbitrary: m)
  case Nil
  then show ?case by simp
next
  case (Cons k ks)
  then have k: "k + 2 < w" and ks: "\<forall>k\<in>set ks. k + 2 < w" by simp_all
  have upd: "length (m[base + k + 2 := v]) = length m \<and>
             take base (m[base + k + 2 := v]) = take base m \<and>
             drop (base + w) (m[base + k + 2 := v]) = drop (base + w) m" for v
    using k by simp
  from Cons.IH [OF ks] upd show ?case by simp
qed

lemma apply_phase_correction_outside:
  "length (apply_phase_correction m j) = length m"
  "take (j + 16) (apply_phase_correction m j) = take (j + 16) m"
  "drop (j + 16 + 224) (apply_phase_correction m j) = drop (j + 16 + 224) m"
proof -
  have "\<forall>k\<in>set (map (\<lambda>i. 2 * i) [0..<MODES_LONG_MSG_BITS - 1]). k + 2 < 224"
    by (auto simp add: MODES_LONG_MSG_BITS_def)
  from phase_loop_outside [OF this, of "j + 16" m]
  show "length (apply_phase_correction m j) = length m"
    "take (j + 16) (apply_phase_correction m j) = take (j + 16) m"
    "drop (j + 16 + 224) (apply_phase_correction m j) = drop (j + 16 + 224) m"
    by (simp_all add: apply_phase_correction_def)
qed

lemma restore_saved_window:
  assumes "j + 2 * MODES_PREAMBLE_US + 2 * MODES_LONG_MSG_BITS \<le> length m"
    and "length m1 = length m"
    and "take (j + 16) m1 = take (j + 16) m"
    and "drop (j + 16 + 224) m1 = drop (j + 16 + 224) m"
  shows "restore_window m1 j (save_window m j) = m"
proof -
  from assms(1) have len: "j + 240 \<le> length m"
    by (simp add: MODES_PREAMBLE_US_def MODES_LONG_MSG_BITS_def)
  then have l: "length (take 224 (drop (j + 16) m)) = 224" by simp
  have "take (j + 16) m @ take 224 (drop (j + 16) m) @ drop (j + 16 + 224) m = m"
    by (metis append_take_drop_id drop_drop add.commute)
  with assms(3,4) l show ?thesis
    by (simp add: restore_window_def save_window_def MODES_PREAMBLE_US_def MODES_LONG_MSG_BITS_def)
qed

lemma buffer_after_same:
  assumes "unat (scan_j s) + 2 * MODES_PREAMBLE_US + 2 * MODES_LONG_MSG_BITS \<le> length (mag s)"
  shows "buffer_after s = mag s"
proof -
  let ?m = "mag s" and ?j = "unat (scan_j s)"
  have "restore_window (apply_phase_correction ?m ?j) ?j (save_window ?m ?j) = ?m"
    by (rule restore_saved_window [OF assms apply_phase_correction_outside])
  moreover have "restore_window ?m ?j (save_window ?m ?j) = ?m"
    by (rule restore_saved_window [OF assms]) simp_all
  ultimately show ?thesis
    by (simp add: buffer_after_def slicing_buffer_def)
qed

text \<open>
  \<^bold>\<open>C9.\<close> When the samples the pass reads lie inside the buffer, the buffer after a pass
  through the loop body is the buffer before it, at every index, whether or not the pass
  retried with the phase correction: the correction writes only inside the window of 224
  samples after the preamble, and that window is copied back from \<^verbatim>\<open>aux\<close> before anything
  else happens.
\<close>

theorem window_restored:
  assumes "unat (scan_j s) + 2 * MODES_PREAMBLE_US + 2 * MODES_LONG_MSG_BITS \<le> length (mag s)"
  shows "mag (snd (detect_step M now s)) = mag s"
  using buffer_after_same [OF assms]
  by (simp add: detect_step_def split: prod.splits)

lemma header_fields_bits: "msg_bits (header_fields m t bits crc e ok) = bits"
  by (simp add: header_fields_def zero_message_def)

lemma payload_fields_bits: "msg_bits (payload_fields m mm) = msg_bits mm"
  by (simp add: payload_fields_def Let_def decode_extended_squitter_def split: prod.splits)

lemma address_stage_bits:
  "address_stage M modes now m mm = (mm', modes') \<Longrightarrow> msg_bits mm' = msg_bits mm"
  by (auto simp add: address_stage_def brute_force_AP_def Let_def split: prod.splits if_splits)

lemma decode_msg_bits:
  assumes "decode_modeS_message M modes now frame = (mm, modes')"
  shows "msg_bits mm = modeS_message_len_by_type (unat (drop_bit 3 (take 14 frame ! 0)))"
proof -
  from assms obtain e m crc ok mm1 where
    a: "address_stage M modes now m
       (header_fields m (unat (drop_bit 3 (take 14 frame ! 0)))
          (modeS_message_len_by_type (unat (drop_bit 3 (take 14 frame ! 0)))) crc e ok) = (mm1, modes')"
    and mm: "mm = (payload_fields m mm1)\<lparr>phase_corrected := False\<rparr>"
    by (rule decode_stages)
  from address_stage_bits [OF a] mm show ?thesis
    by (simp add: payload_fields_bits header_fields_bits)
qed

lemma length_pack_bits: "length (pack_bits bits) = 14"
  by (simp add: pack_bits_def MODES_LONG_MSG_BITS_def)

lemma verdict_cases:
  assumes "candidate_verdict M now s = (out, j', uc', modes')"
  shows "(\<forall>mm. out = Accepted mm \<longrightarrow>
            j' = scan_j s + word_of_nat (2 * (MODES_PREAMBLE_US + 8 * (msg_bits mm div 8))) + 1 \<and> \<not> uc')"
    and "out = Noise \<longrightarrow> j' = scan_j s + 1 \<and> \<not> uc'"
    and "out = Not_decoded \<and> \<not> use_correction s \<longrightarrow> j' = scan_j s \<and> uc'"
    and "out = Not_decoded \<and> use_correction s \<longrightarrow> j' = scan_j s + 1 \<and> \<not> uc'"
    and "out \<noteq> No_preamble"
proof -
  let ?frame = "pack_bits (fst (slice_bits (slicing_buffer s) (unat (scan_j s))))"
  have bits: "msg_bits mm = modeS_message_len_by_type (unat (drop_bit 3 (?frame ! 0)))"
    if "decode_modeS_message M (Modes s) now ?frame = (mm, m')" for mm m'
    using decode_msg_bits [OF that] by (simp add: length_pack_bits)
  from assms show "(\<forall>mm. out = Accepted mm \<longrightarrow>
            j' = scan_j s + word_of_nat (2 * (MODES_PREAMBLE_US + 8 * (msg_bits mm div 8))) + 1 \<and> \<not> uc')"
    by (auto simp add: candidate_verdict_def Let_def bits split: if_splits prod.splits)
  from assms show "out = Noise \<longrightarrow> j' = scan_j s + 1 \<and> \<not> uc'"
    by (auto simp add: candidate_verdict_def Let_def split: if_splits prod.splits)
  from assms show "out = Not_decoded \<and> \<not> use_correction s \<longrightarrow> j' = scan_j s \<and> uc'"
    by (auto simp add: candidate_verdict_def Let_def split: if_splits prod.splits)
  from assms show "out = Not_decoded \<and> use_correction s \<longrightarrow> j' = scan_j s + 1 \<and> \<not> uc'"
    by (auto simp add: candidate_verdict_def Let_def split: if_splits prod.splits)
  from assms show "out \<noteq> No_preamble"
    by (auto simp add: candidate_verdict_def Let_def split: if_splits prod.splits)
qed

lemma scan_advance_by_outcome:
  assumes "detect_step M now s = (out, s')"
  shows "(\<forall>mm. out = Accepted mm \<longrightarrow>
            scan_j s' = scan_j s + word_of_nat (2 * (MODES_PREAMBLE_US + 8 * (msg_bits mm div 8))) + 1 \<and>
            \<not> use_correction s') \<and>
         (out = No_preamble \<or> out = Noise \<longrightarrow> scan_j s' = scan_j s + 1) \<and>
         (out = Not_decoded \<and> \<not> use_correction s \<longrightarrow> scan_j s' = scan_j s \<and> use_correction s') \<and>
         (out = Not_decoded \<and> use_correction s \<longrightarrow> scan_j s' = scan_j s + 1 \<and> \<not> use_correction s')"
proof (cases "(\<not> use_correction s \<and> \<not> preamble_shape (mag s) (unat (scan_j s))) \<or>
              (\<not> use_correction s \<and> \<not> preamble_quiet (mag s) (unat (scan_j s)))")
  case True
  with assms have "out = No_preamble" "s' = s\<lparr>scan_j := scan_j s + 1\<rparr>"
    by (auto simp add: detect_step_def split: if_splits)
  then show ?thesis by simp
next
  case False
  obtain o1 j' uc' modes' where v: "candidate_verdict M now s = (o1, j', uc', modes')"
    by (cases "candidate_verdict M now s")
  with False assms have "out = o1"
    and "s' = \<lparr>mag = buffer_after s, scan_j = j', use_correction = uc', Modes = modes'\<rparr>"
    by (auto simp add: detect_step_def split: if_splits)
  with verdict_cases [OF v] show ?thesis by simp
qed

subsection \<open>The scan loop on modulated frames\<close>

lemma klm_preamble: "preamble_shape (ppm_samples klm_frame) 0 \<and> preamble_quiet (ppm_samples klm_frame) 0"
  by code_simp

lemma klm_sliced:
  "pack_bits (fst (slice_bits (ppm_samples klm_frame) 0)) = klm_frame \<and>
   snd (slice_bits (ppm_samples klm_frame) 0) = 0"
  by code_simp

lemma klm_noise: "noise_delta (ppm_samples klm_frame) 0 14 = 12000"
  by code_simp

lemma s1_preamble: "preamble_shape (ppm_samples s1_frame) 0 \<and> preamble_quiet (ppm_samples s1_frame) 0"
  by code_simp

lemma s1_sliced:
  "pack_bits (fst (slice_bits (ppm_samples s1_frame) 0)) = s1_frame \<and>
   snd (slice_bits (ppm_samples s1_frame) 0) = 0"
  by code_simp

lemma s1_noise: "noise_delta (ppm_samples s1_frame) 0 14 = 12000"
  by code_simp

lemma first_attempt_buffers:
  "\<not> use_correction s \<Longrightarrow> slicing_buffer s = mag s \<and> buffer_after s = mag s"
  by (simp add: slicing_buffer_def buffer_after_def)

lemma msg_len_17: "unat (drop_bit 3 (klm_frame ! 0)) = 17" "unat (drop_bit 3 (s1_frame ! 0)) = 17"
  by (simp_all add: klm_frame_def s1_frame_def)

lemma klm_verdict:
  "candidate_verdict M1024 1000 klm_state =
     (Accepted ((payload_fields klm_frame (header_fields klm_frame 17 112 0x576098 (-1) True))
                 \<lparr>phase_corrected := False\<rparr>),
      241, False,
      modes0\<lparr>ICAO_cache := ICAO_cache_add_address M1024 (ICAO_cache modes0) 0x4840D6 1000\<rparr>)"
proof -
  have uc: "\<not> use_correction klm_state" by (simp add: klm_state_def)
  have st: "mag klm_state = ppm_samples klm_frame" "scan_j klm_state = 0" "Modes klm_state = modes0"
    by (simp_all add: klm_state_def)
  show ?thesis
    by (simp add: candidate_verdict_def Let_def first_attempt_buffers [OF uc] st uc klm_sliced
        klm_noise msg_len_17 len_by_type_17 decode_klm_frame payload_fields_keeps header_fields_sel
        MODES_PREAMBLE_US_def)
qed

lemma s1_verdict:
  "candidate_verdict M1024 1000 s1_state = (Not_decoded, 0, True, modes0)"
proof -
  have uc: "\<not> use_correction s1_state" by (simp add: s1_state_def)
  have st: "mag s1_state = ppm_samples s1_frame" "scan_j s1_state = 0" "Modes s1_state = modes0"
    by (simp_all add: s1_state_def)
  show ?thesis
    by (simp add: candidate_verdict_def Let_def first_attempt_buffers [OF uc] st uc s1_sliced
        s1_noise msg_len_17 len_by_type_17 decode_s1_frame payload_fields_keeps header_fields_sel)
qed

lemma klm_step:
  "detect_step M1024 1000 klm_state =
     (Accepted ((payload_fields klm_frame (header_fields klm_frame 17 112 0x576098 (-1) True))
                 \<lparr>phase_corrected := False\<rparr>),
      \<lparr>mag = ppm_samples klm_frame, scan_j = 241, use_correction = False,
       Modes = modes0\<lparr>ICAO_cache :=
                 ICAO_cache_add_address M1024 (ICAO_cache modes0) 0x4840D6 1000\<rparr>\<rparr>)"
proof -
  have uc: "\<not> use_correction klm_state" by (simp add: klm_state_def)
  have st: "mag klm_state = ppm_samples klm_frame" "scan_j klm_state = 0"
    by (simp_all add: klm_state_def)
  show ?thesis
    by (simp add: detect_step_def klm_verdict first_attempt_buffers [OF uc] st klm_preamble)
qed

lemma s1_step:
  "detect_step M1024 1000 s1_state =
     (Not_decoded,
      \<lparr>mag = ppm_samples s1_frame, scan_j = 0, use_correction = True, Modes = modes0\<rparr>)"
proof -
  have uc: "\<not> use_correction s1_state" by (simp add: s1_state_def)
  have st: "mag s1_state = ppm_samples s1_frame" "scan_j s1_state = 0"
    by (simp_all add: s1_state_def)
  show ?thesis
    by (simp add: detect_step_def s1_verdict first_attempt_buffers [OF uc] st s1_preamble)
qed

text \<open>
  \<^bold>\<open>C7, as stated, fails.\<close> At position 0 of the modulated frame \<open>klm_frame\<close>, a CRC-passing
  message of 14 bytes, the next position is 241, not \<open>2 * (16 + 8 * 14) = 256\<close>. At
  position 0 of the modulated frame \<open>s1_frame\<close>, whose CRC fails, the first attempt leaves
  the position at 0 and asks for a retry: the scan does not advance by 1.
\<close>

theorem scan_advance_not_as_stated:
  "fst (detect_step M1024 1000 klm_state) =
     Accepted ((payload_fields klm_frame (header_fields klm_frame 17 112 0x576098 (-1) True))
                 \<lparr>phase_corrected := False\<rparr>) \<and>
   scan_j (snd (detect_step M1024 1000 klm_state)) = scan_j klm_state + 241 \<and>
   (241 :: u32) \<noteq> 2 * (16 + 8 * 14) \<and>
   fst (detect_step M1024 1000 s1_state) = Not_decoded \<and>
   scan_j (snd (detect_step M1024 1000 s1_state)) = scan_j s1_state"
proof -
  have "scan_j klm_state = 0" "scan_j s1_state = 0"
    by (simp_all add: klm_state_def s1_state_def)
  then show ?thesis by (simp add: klm_step s1_step)
qed

lemma retry_state_corrected: "slicing_buffer retry_state \<noteq> mag retry_state"
  by code_simp

theorem window_restored_witness:
  "slicing_buffer retry_state \<noteq> mag retry_state \<and>
   mag (snd (detect_step M1024 1000 retry_state)) = mag retry_state"
proof -
  have "unat (scan_j retry_state) + 2 * MODES_PREAMBLE_US + 2 * MODES_LONG_MSG_BITS
          \<le> length (mag retry_state)"
    by (simp add: retry_state_def MODES_PREAMBLE_US_def MODES_LONG_MSG_BITS_def)
  from window_restored [OF this] retry_state_corrected show ?thesis by simp
qed

subsection \<open>How far the scan loop advances\<close>

lemma candidate_verdict_gates:
  "candidate_verdict M now s =
     (if \<not> noise_passed s then (Noise, scan_j s + 1, False, Modes s)
      else if errors_allowed s
      then (if crc_passed M now s
            then (Accepted ((decoded_message M now s)\<lparr>phase_corrected := use_correction s\<rparr>),
                  scan_j s + word_of_nat (2 * (MODES_PREAMBLE_US + 8 * frame_len s)) + 1,
                  False, snd (decode_modeS_message M (Modes s) now (sliced_frame s)))
            else if \<not> use_correction s
            then (Not_decoded, scan_j s, True, snd (decode_modeS_message M (Modes s) now (sliced_frame s)))
            else (Not_decoded, scan_j s + 1, False,
                  snd (decode_modeS_message M (Modes s) now (sliced_frame s))))
      else if \<not> use_correction s
      then (Not_decoded, scan_j s, True, Modes s)
      else (Not_decoded, scan_j s + 1, False, Modes s))"
  by (simp add: candidate_verdict_def Let_def noise_passed_def errors_allowed_def crc_passed_def
      decoded_message_def frame_len_def sliced_frame_def slicer_errors_def split: prod.splits)

lemma detect_step_gates:
  "detect_step M now s =
     (if \<not> preamble_passed s then (No_preamble, s\<lparr>scan_j := scan_j s + 1\<rparr>)
      else (fst (candidate_verdict M now s),
            \<lparr>mag = buffer_after s, scan_j = fst (snd (candidate_verdict M now s)),
             use_correction = fst (snd (snd (candidate_verdict M now s))),
             Modes = snd (snd (snd (candidate_verdict M now s)))\<rparr>))"
  by (auto simp add: detect_step_def preamble_passed_def split: prod.splits)

lemma frame_len_decoded: "frame_len s = msg_bits (decoded_message M now s) div 8"
proof -
  obtain mm modes' where d: "decode_modeS_message M (Modes s) now (sliced_frame s) = (mm, modes')"
    by (cases "decode_modeS_message M (Modes s) now (sliced_frame s)")
  have "take 14 (sliced_frame s) = sliced_frame s"
    by (simp add: sliced_frame_def length_pack_bits)
  with decode_msg_bits [OF d] d show ?thesis
    by (simp add: frame_len_def decoded_message_def)
qed

text \<open>
  \<^bold>\<open>C7, as the code has it.\<close> The five ways a pass through the loop body can go, each
  named by the tests of the source that decide it.
  \<^item> The candidate passes the preamble tests (or is a retry), the noise filter and the error
    rule, and the decoded message has \<^verbatim>\<open>CRC_ok\<close>: the message is handed on, and the position
    after the pass is \<open>j + 2 * (8 + 8 * L) + 1\<close> for the message's length \<open>L\<close> in bytes (the
    body adds \<^verbatim>\<open>2 * (MODES_PREAMBLE_US + 8 * msg_len)\<close>, the loop adds 1).
  \<^item> A first attempt fails a preamble test: \<open>j + 1\<close>.
  \<^item> The noise filter rejects: \<open>j + 1\<close>.
  \<^item> A first attempt passes these but fails the error rule or has no good CRC: the position
    stays \<open>j\<close> and \<^verbatim>\<open>use_correction\<close> is set, so the same candidate is tried again.
  \<^item> A retry fails the error rule or has no good CRC: \<open>j + 1\<close>.
\<close>

theorem scan_advance:
  "(preamble_passed s \<and> noise_passed s \<and> errors_allowed s \<and> crc_passed M now s \<longrightarrow>
      fst (detect_step M now s) =
        Accepted ((decoded_message M now s)\<lparr>phase_corrected := use_correction s\<rparr>) \<and>
      scan_j (snd (detect_step M now s)) =
        scan_j s + word_of_nat (2 * (MODES_PREAMBLE_US + 8 * (msg_bits (decoded_message M now s) div 8))) + 1 \<and>
      \<not> use_correction (snd (detect_step M now s))) \<and>
   (\<not> preamble_passed s \<longrightarrow>
      fst (detect_step M now s) = No_preamble \<and>
      scan_j (snd (detect_step M now s)) = scan_j s + 1 \<and>
      \<not> use_correction (snd (detect_step M now s))) \<and>
   (preamble_passed s \<and> \<not> noise_passed s \<longrightarrow>
      fst (detect_step M now s) = Noise \<and>
      scan_j (snd (detect_step M now s)) = scan_j s + 1 \<and>
      \<not> use_correction (snd (detect_step M now s))) \<and>
   (preamble_passed s \<and> noise_passed s \<and> \<not> (errors_allowed s \<and> crc_passed M now s) \<and>
    \<not> use_correction s \<longrightarrow>
      fst (detect_step M now s) = Not_decoded \<and>
      scan_j (snd (detect_step M now s)) = scan_j s \<and>
      use_correction (snd (detect_step M now s))) \<and>
   (preamble_passed s \<and> noise_passed s \<and> \<not> (errors_allowed s \<and> crc_passed M now s) \<and>
    use_correction s \<longrightarrow>
      fst (detect_step M now s) = Not_decoded \<and>
      scan_j (snd (detect_step M now s)) = scan_j s + 1 \<and>
      \<not> use_correction (snd (detect_step M now s)))"
proof (intro conjI impI)
  assume "\<not> preamble_passed s"
  then have d: "detect_step M now s = (No_preamble, s\<lparr>scan_j := scan_j s + 1\<rparr>)"
    by (simp add: detect_step_gates)
  have "\<not> use_correction s" using \<open>\<not> preamble_passed s\<close> by (simp add: preamble_passed_def)
  then show "fst (detect_step M now s) = No_preamble"
    "scan_j (snd (detect_step M now s)) = scan_j s + 1"
    "\<not> use_correction (snd (detect_step M now s))"
    by (simp_all add: d)
next
  assume a: "preamble_passed s \<and> noise_passed s \<and> errors_allowed s \<and> crc_passed M now s"
  then show "fst (detect_step M now s) =
        Accepted ((decoded_message M now s)\<lparr>phase_corrected := use_correction s\<rparr>)"
    "scan_j (snd (detect_step M now s)) =
        scan_j s + word_of_nat (2 * (MODES_PREAMBLE_US + 8 * (msg_bits (decoded_message M now s) div 8))) + 1"
    "\<not> use_correction (snd (detect_step M now s))"
    by (simp_all add: detect_step_gates candidate_verdict_gates frame_len_decoded [symmetric])
next
  assume "preamble_passed s \<and> \<not> noise_passed s"
  then show "fst (detect_step M now s) = Noise"
    "scan_j (snd (detect_step M now s)) = scan_j s + 1"
    "\<not> use_correction (snd (detect_step M now s))"
    by (simp_all add: detect_step_gates candidate_verdict_gates)
next
  assume "preamble_passed s \<and> noise_passed s \<and> \<not> (errors_allowed s \<and> crc_passed M now s) \<and>
    \<not> use_correction s"
  then show "fst (detect_step M now s) = Not_decoded"
    "scan_j (snd (detect_step M now s)) = scan_j s"
    "use_correction (snd (detect_step M now s))"
    by (auto simp add: detect_step_gates candidate_verdict_gates)
next
  assume "preamble_passed s \<and> noise_passed s \<and> \<not> (errors_allowed s \<and> crc_passed M now s) \<and>
    use_correction s"
  then show "fst (detect_step M now s) = Not_decoded"
    "scan_j (snd (detect_step M now s)) = scan_j s + 1"
    "\<not> use_correction (snd (detect_step M now s))"
    by (auto simp add: detect_step_gates candidate_verdict_gates)
qed

subsection \<open>The five ways of a pass, each on a buffer\<close>

lemma klm_state_gates:
  "preamble_passed klm_state" "noise_passed klm_state" "errors_allowed klm_state"
  "crc_passed M1024 1000 klm_state" "msg_bits (decoded_message M1024 1000 klm_state) = 112"
  "scan_j klm_state = 0"
proof -
  have uc: "\<not> use_correction klm_state" by (simp add: klm_state_def)
  have st: "mag klm_state = ppm_samples klm_frame" "scan_j klm_state = 0" "Modes klm_state = modes0"
    by (simp_all add: klm_state_def)
  have f: "sliced_frame klm_state = klm_frame" "slicer_errors klm_state = 0"
    by (simp_all add: sliced_frame_def slicer_errors_def first_attempt_buffers [OF uc] st klm_sliced)
  then have l: "frame_len klm_state = 14"
    by (simp add: frame_len_def msg_len_17 len_by_type_17)
  show "preamble_passed klm_state" by (simp add: preamble_passed_def st klm_preamble)
  show "noise_passed klm_state"
    by (simp add: noise_passed_def l first_attempt_buffers [OF uc] st klm_noise)
  show "errors_allowed klm_state" by (simp add: errors_allowed_def f)
  show "crc_passed M1024 1000 klm_state"
    by (simp add: crc_passed_def decoded_message_def f st decode_klm_frame payload_fields_keeps
        header_fields_sel)
  show "msg_bits (decoded_message M1024 1000 klm_state) = 112"
    by (simp add: decoded_message_def f st decode_klm_frame payload_fields_bits header_fields_bits)
  show "scan_j klm_state = 0" by (rule st)
qed

lemma flat_state_gates: "\<not> preamble_passed flat_state" "scan_j flat_state = 0"
  by (simp_all add: preamble_passed_def flat_state_def preamble_shape_def sample_def)

lemma faint_state_gates: "preamble_passed faint_state \<and> \<not> noise_passed faint_state"
  by code_simp

lemma s1_state_gates:
  "preamble_passed s1_state" "noise_passed s1_state" "\<not> crc_passed M1024 1000 s1_state"
  "\<not> use_correction s1_state" "scan_j s1_state = 0"
proof -
  show uc: "\<not> use_correction s1_state" by (simp add: s1_state_def)
  have st: "mag s1_state = ppm_samples s1_frame" "scan_j s1_state = 0" "Modes s1_state = modes0"
    by (simp_all add: s1_state_def)
  have f: "sliced_frame s1_state = s1_frame"
    by (simp add: sliced_frame_def first_attempt_buffers [OF uc] st s1_sliced)
  then have l: "frame_len s1_state = 14"
    by (simp add: frame_len_def msg_len_17 len_by_type_17)
  show "preamble_passed s1_state" by (simp add: preamble_passed_def st s1_preamble)
  show "noise_passed s1_state"
    by (simp add: noise_passed_def l first_attempt_buffers [OF uc] st s1_noise)
  show "\<not> crc_passed M1024 1000 s1_state"
    by (simp add: crc_passed_def decoded_message_def f st decode_s1_frame payload_fields_keeps
        header_fields_sel)
  show "scan_j s1_state = 0" by (rule st)
qed

lemma s1_retry_state_gates:
  "preamble_passed s1_retry_state" "noise_passed s1_retry_state"
  "\<not> crc_passed M1024 1000 s1_retry_state"
  "use_correction s1_retry_state" "scan_j s1_retry_state = 0"
proof -
  show uc: "use_correction s1_retry_state" by (simp add: s1_retry_state_def)
  have st: "mag s1_retry_state = ppm_samples s1_frame" "scan_j s1_retry_state = 0"
    "Modes s1_retry_state = modes0"
    by (simp_all add: s1_retry_state_def)
  have sb: "slicing_buffer s1_retry_state = ppm_samples s1_frame"
    by (simp add: slicing_buffer_def st)
  have "length (ppm_samples s1_frame) = 241"
    by code_simp
  then have "unat (scan_j s1_retry_state) + 2 * MODES_PREAMBLE_US + 2 * MODES_LONG_MSG_BITS
      \<le> length (mag s1_retry_state)"
    by (simp add: st MODES_PREAMBLE_US_def MODES_LONG_MSG_BITS_def)
  then have ba: "buffer_after s1_retry_state = ppm_samples s1_frame"
    by (simp add: buffer_after_same st)
  have f: "sliced_frame s1_retry_state = s1_frame"
    by (simp add: sliced_frame_def sb st s1_sliced)
  then have l: "frame_len s1_retry_state = 14"
    by (simp add: frame_len_def msg_len_17 len_by_type_17)
  show "preamble_passed s1_retry_state" by (simp add: preamble_passed_def uc)
  show "noise_passed s1_retry_state"
    by (simp add: noise_passed_def l ba st s1_noise)
  show "\<not> crc_passed M1024 1000 s1_retry_state"
    by (simp add: crc_passed_def decoded_message_def f st decode_s1_frame payload_fields_keeps
        header_fields_sel)
  show "scan_j s1_retry_state = 0" by (rule st)
qed

theorem scan_advance_witness:
  "(scan_j (snd (detect_step M1024 1000 klm_state)) = 241 \<and>
    \<not> use_correction (snd (detect_step M1024 1000 klm_state))) \<and>
   (fst (detect_step M1024 1000 flat_state) = No_preamble \<and>
    scan_j (snd (detect_step M1024 1000 flat_state)) = 1) \<and>
   (fst (detect_step M1024 1000 faint_state) = Noise \<and>
    scan_j (snd (detect_step M1024 1000 faint_state)) = scan_j faint_state + 1) \<and>
   (fst (detect_step M1024 1000 s1_state) = Not_decoded \<and>
    scan_j (snd (detect_step M1024 1000 s1_state)) = 0 \<and>
    use_correction (snd (detect_step M1024 1000 s1_state))) \<and>
   (fst (detect_step M1024 1000 s1_retry_state) = Not_decoded \<and>
    scan_j (snd (detect_step M1024 1000 s1_retry_state)) = 1 \<and>
    \<not> use_correction (snd (detect_step M1024 1000 s1_retry_state)))"
proof (intro conjI)
  note a = scan_advance [of klm_state M1024 1000]
  from a klm_state_gates(1-4) have "scan_j (snd (detect_step M1024 1000 klm_state)) =
      scan_j klm_state +
      word_of_nat (2 * (MODES_PREAMBLE_US + 8 * (msg_bits (decoded_message M1024 1000 klm_state) div 8))) + 1"
    by blast
  then show "scan_j (snd (detect_step M1024 1000 klm_state)) = 241"
    by (simp add: klm_state_gates(5,6) MODES_PREAMBLE_US_def)
  from a klm_state_gates(1-4) show "\<not> use_correction (snd (detect_step M1024 1000 klm_state))"
    by blast
next
  note b = scan_advance [of flat_state M1024 1000]
  from b flat_state_gates(1) show "fst (detect_step M1024 1000 flat_state) = No_preamble" by blast
  from b flat_state_gates(1) have "scan_j (snd (detect_step M1024 1000 flat_state)) = scan_j flat_state + 1"
    by blast
  then show "scan_j (snd (detect_step M1024 1000 flat_state)) = 1"
    by (simp add: flat_state_gates(2))
next
  note c = scan_advance [of faint_state M1024 1000]
  from c faint_state_gates show "fst (detect_step M1024 1000 faint_state) = Noise" by blast
  from c faint_state_gates
  show "scan_j (snd (detect_step M1024 1000 faint_state)) = scan_j faint_state + 1" by blast
next
  note d = scan_advance [of s1_state M1024 1000]
  from d s1_state_gates(1-4) show "fst (detect_step M1024 1000 s1_state) = Not_decoded" by blast
  from d s1_state_gates(1-4) have "scan_j (snd (detect_step M1024 1000 s1_state)) = scan_j s1_state"
    by blast
  then show "scan_j (snd (detect_step M1024 1000 s1_state)) = 0" by (simp add: s1_state_gates(5))
  from d s1_state_gates(1-4) show "use_correction (snd (detect_step M1024 1000 s1_state))" by blast
next
  note e = scan_advance [of s1_retry_state M1024 1000]
  from e s1_retry_state_gates(1-4)
  show "fst (detect_step M1024 1000 s1_retry_state) = Not_decoded" by blast
  from e s1_retry_state_gates(1-4)
  have "scan_j (snd (detect_step M1024 1000 s1_retry_state)) = scan_j s1_retry_state + 1" by blast
  then show "scan_j (snd (detect_step M1024 1000 s1_retry_state)) = 1"
    by (simp add: s1_retry_state_gates(5))
  from e s1_retry_state_gates(1-4)
  show "\<not> use_correction (snd (detect_step M1024 1000 s1_retry_state))" by blast
qed

section \<open>The magnitude table and the mapper\<close>

subsection \<open>Every cell of the table is written once\<close>

lemma lut_row_length: "length (lut_row I Qs lut) = length lut"
  by (induction Qs arbitrary: lut) simp_all

lemma lut_row_nth:
  "\<forall>Q\<in>set Qs. I * 129 + Q < length lut \<Longrightarrow>
   lut_row I Qs lut ! n =
     (if \<exists>Q\<in>set Qs. n = I * 129 + Q then lut_entry I (n - I * 129) else lut ! n)"
proof (induction Qs arbitrary: lut)
  case Nil
  then show ?case by simp
next
  case (Cons Q Qs)
  from Cons.prems have r: "\<forall>Q'\<in>set Qs. I * 129 + Q' < length (lut[I * 129 + Q := lut_entry I Q])"
    and lq: "I * 129 + Q < length lut"
    by simp_all
  show ?case
  proof (cases "\<exists>Q'\<in>set Qs. n = I * 129 + Q'")
    case True
    then show ?thesis using Cons.IH [OF r] by simp
  next
    case False
    then show ?thesis using Cons.IH [OF r] lq by (auto simp add: nth_list_update)
  qed
qed

lemma row_index_unique:
  assumes "Q < 129" "Q' < 129" "I * 129 + Q = J * 129 + Q'"
  shows "I = (J::nat)"
proof -
  have "(I * 129 + Q) div 129 = I" using assms(1) by simp
  moreover have "(J * 129 + Q') div 129 = J" using assms(2) by simp
  ultimately show ?thesis using assms(3) by simp
qed

lemma lut_full_row_nth:
  assumes "J * 129 + 129 \<le> length lut" and "Q < 129"
  shows "lut_row J [0..<129] lut ! (I * 129 + Q) =
           (if I = J then lut_entry I Q else lut ! (I * 129 + Q))"
proof -
  have "\<forall>Q'\<in>set [0..<129]. J * 129 + Q' < length lut"
    using assms(1) by (simp only: set_upt atLeastLessThan_iff) auto
  then have eq: "lut_row J [0..<129] lut ! (I * 129 + Q) =
      (if \<exists>Q'\<in>set [0..<129]. I * 129 + Q = J * 129 + Q' then lut_entry J (I * 129 + Q - J * 129)
       else lut ! (I * 129 + Q))"
    by (rule lut_row_nth)
  have "(\<exists>Q'\<in>set [0..<129]. I * 129 + Q = J * 129 + Q') = (I = J)"
  proof
    assume "\<exists>Q'\<in>set [0..<129]. I * 129 + Q = J * 129 + Q'"
    then obtain Q' where "Q' < 129" "I * 129 + Q = J * 129 + Q'"
      by (auto simp only: set_upt atLeastLessThan_iff)
    with assms(2) show "I = J" by (meson row_index_unique)
  next
    assume "I = J"
    moreover from assms(2) have "Q \<in> set [0..<129]" by (simp only: set_upt atLeastLessThan_iff) simp
    ultimately show "\<exists>Q'\<in>set [0..<129]. I * 129 + Q = J * 129 + Q'" by blast
  qed
  with eq show ?thesis by (simp only:) simp
qed

lemma lut_rows_length: "length (lut_rows Is lut) = length lut"
  by (induction Is arbitrary: lut) (simp_all add: lut_row_length del: upt_rec_numeral)

lemma lut_rows_nth:
  assumes "Q < 129"
  shows "\<forall>J\<in>set Is. J * 129 + 129 \<le> length lut \<Longrightarrow>
         lut_rows Is lut ! (I * 129 + Q) =
           (if I \<in> set Is then lut_entry I Q else lut ! (I * 129 + Q))"
proof (induction Is arbitrary: lut)
  case Nil
  then show ?case by simp
next
  case (Cons J Is)
  from Cons.prems have rJ: "J * 129 + 129 \<le> length lut"
    and r: "\<forall>J'\<in>set Is. J' * 129 + 129 \<le> length (lut_row J [0..<129] lut)"
    by (simp_all add: lut_row_length del: upt_rec_numeral)
  have "lut_rows (J # Is) lut ! (I * 129 + Q) = lut_rows Is (lut_row J [0..<129] lut) ! (I * 129 + Q)"
    by (simp only: lut_rows.simps)
  also have "\<dots> = (if I \<in> set Is then lut_entry I Q else lut_row J [0..<129] lut ! (I * 129 + Q))"
    by (rule Cons.IH [OF r])
  also have "\<dots> = (if I \<in> set (J # Is) then lut_entry I Q else lut ! (I * 129 + Q))"
    by (simp add: lut_full_row_nth [OF rJ assms] del: upt_rec_numeral)
  finally show ?case .
qed

lemma lut_nth:
  assumes "I \<le> 128" "Q \<le> 128"
  shows "c_gen_magnitude_lut ! (129 * I + Q) = lut_entry I Q"
proof -
  have r: "\<forall>J\<in>set [0..<129]. J * 129 + 129 \<le> length (replicate (129 * 129) (0::u16))"
    by (simp only: set_upt atLeastLessThan_iff length_replicate) auto
  have q: "Q < 129" using assms(2) by simp
  have i: "I \<in> set [0..<129]" using assms(1) by (simp only: set_upt atLeastLessThan_iff) simp
  have "c_gen_magnitude_lut ! (129 * I + Q) =
      lut_rows [0..<129] (replicate (129 * 129) 0) ! (I * 129 + Q)"
    by (simp only: c_gen_magnitude_lut_def mult.commute)
  also have "\<dots> = (if I \<in> set [0..<129] then lut_entry I Q
      else replicate (129 * 129) 0 ! (I * 129 + Q))"
    by (rule lut_rows_nth [OF q r])
  also have "\<dots> = lut_entry I Q" using i by (simp only: if_True)
  finally show ?thesis .
qed

subsection \<open>The entries, computed in the integers\<close>

text \<open>
  \<open>isqrt n\<close> is the integer part of the square root of \<open>n\<close>.
\<close>

lemma bisect_sqrt_correct:
  "0 \<le> lo \<Longrightarrow> 0 \<le> hi \<Longrightarrow> lo * lo \<le> n \<Longrightarrow> n < hi * hi \<Longrightarrow>
   0 \<le> bisect_sqrt n lo hi \<and>
   bisect_sqrt n lo hi * bisect_sqrt n lo hi \<le> n \<and>
   n < (bisect_sqrt n lo hi + 1) * (bisect_sqrt n lo hi + 1)"
proof (induction n lo hi rule: bisect_sqrt.induct)
  case (1 n lo hi)
  show ?case
  proof (cases "hi \<le> lo + 1")
    case True
    with "1.prems"(2) have "hi * hi \<le> (lo + 1) * (lo + 1)" by (intro mult_mono) simp_all
    with "1.prems" True show ?thesis by (simp add: bisect_sqrt.simps [of n lo hi])
  next
    case False
    define mid where "mid = (lo + hi) div 2"
    have mid0: "0 \<le> mid" using "1.prems"(1,2) by (simp add: mid_def)
    show ?thesis
    proof (cases "mid * mid \<le> n")
      case True
      have "bisect_sqrt n lo hi = bisect_sqrt n mid hi"
        using False True by (simp add: bisect_sqrt.simps [of n lo hi] mid_def Let_def)
      moreover have "0 \<le> bisect_sqrt n mid hi \<and>
          bisect_sqrt n mid hi * bisect_sqrt n mid hi \<le> n \<and>
          n < (bisect_sqrt n mid hi + 1) * (bisect_sqrt n mid hi + 1)"
        using "1.IH"(1) [OF False refl] True "1.prems"(2,4) mid0 by (simp add: mid_def)
      ultimately show ?thesis by simp
    next
      case nle: False
      have "bisect_sqrt n lo hi = bisect_sqrt n lo mid"
        using False nle by (simp add: bisect_sqrt.simps [of n lo hi] mid_def Let_def)
      moreover have "0 \<le> bisect_sqrt n lo mid \<and>
          bisect_sqrt n lo mid * bisect_sqrt n lo mid \<le> n \<and>
          n < (bisect_sqrt n lo mid + 1) * (bisect_sqrt n lo mid + 1)"
        using "1.IH"(2) [OF False refl] nle "1.prems"(1,3) mid0 by (simp add: mid_def)
      ultimately show ?thesis by simp
    qed
  qed
qed

lemma isqrt_correct:
  assumes "0 \<le> n"
  shows "0 \<le> isqrt n \<and> isqrt n * isqrt n \<le> n \<and> n < (isqrt n + 1) * (isqrt n + 1)"
proof -
  have "n < (n + 1) * (n + 1)"
  proof -
    have "0 \<le> n * n" by simp
    with assms have "n < n * n + 2 * n + 1" by linarith
    also have "\<dots> = (n + 1) * (n + 1)" by (simp add: algebra_simps)
    finally show ?thesis .
  qed
  with assms show ?thesis unfolding isqrt_def by (intro bisect_sqrt_correct) simp_all
qed

text \<open>
  \<open>360 * sqrt m\<close> is half the square root of \<open>518400 * m\<close>, so it rounds to half (rounded
  up) of the integer square root next below.
\<close>

lemma sqrt_between:
  assumes "0 \<le> r" "r * r \<le> N" "N < (r + 1) * (r + 1)"
  shows "real_of_int r \<le> sqrt (real_of_int N)" and "sqrt (real_of_int N) < real_of_int r + 1"
proof -
  have "real_of_int (r * r) \<le> real_of_int N" using assms(2) by (simp only: of_int_le_iff)
  then have "(real_of_int r)\<^sup>2 \<le> real_of_int N" by (simp add: power2_eq_square)
  then show "real_of_int r \<le> sqrt (real_of_int N)" by (rule real_le_rsqrt)
  have "real_of_int N < real_of_int ((r + 1) * (r + 1))" using assms(3) by (simp only: of_int_less_iff)
  then have "real_of_int N < (real_of_int r + 1)\<^sup>2" by (simp add: power2_eq_square algebra_simps)
  then show "sqrt (real_of_int N) < real_of_int r + 1" using assms(1) by (intro real_less_lsqrt) simp_all
qed

lemma round_half_between:
  assumes "real_of_int r \<le> s" "odd r \<longrightarrow> real_of_int r + e \<le> s" "s < real_of_int r + 1 - e"
    "s / 2 - e / 2 \<le> y" "y \<le> s / 2 + e / 2" "0 \<le> e" "e \<le> 1"
  shows "round y = (r + 1) div 2"
proof (cases "even r")
  case True
  then obtain t where r: "r = 2 * t" by (elim evenE)
  then have t: "(r + 1) div 2 = t" by simp
  have rr: "real_of_int r = 2 * real_of_int t" by (simp add: r)
  have "real_of_int t \<le> y + 1 / 2" using assms(1,4,7) rr by simp
  moreover have "y + 1 / 2 < real_of_int t + 1" using assms(3,5) rr by simp
  ultimately have "\<lfloor>y + 1 / 2\<rfloor> = t" by (intro floor_unique)
  then show ?thesis by (simp only: round_def t)
next
  case False
  then obtain t where r: "r = 2 * t + 1" by (elim oddE)
  then have t: "(r + 1) div 2 = t + 1" by simp
  have rr: "real_of_int r = 2 * real_of_int t + 1" by (simp add: r)
  have lo: "real_of_int r + e \<le> s" using assms(2) False by simp
  have "real_of_int (t + 1) \<le> y + 1 / 2" using lo assms(4) rr by simp
  moreover have "y + 1 / 2 < real_of_int (t + 1) + 1" using assms(3,5) rr by simp
  ultimately have "\<lfloor>y + 1 / 2\<rfloor> = t + 1" by (intro floor_unique)
  then show ?thesis by (simp only: round_def t)
qed

lemma round_half_sqrt:
  assumes "0 \<le> r" "r * r \<le> N" "N < (r + 1) * (r + 1)"
  shows "round (sqrt (real_of_int N) / 2) = (r + 1) div 2"
  using sqrt_between [OF assms]
  by (intro round_half_between [where e = 0 and s = "sqrt (real_of_int N)"]) simp_all

lemma sqrt_scaled: "360 * sqrt (real m) = sqrt (real_of_int (518400 * int m)) / 2"
proof -
  have "sqrt (518400::real) = 720" by (intro real_sqrt_unique) simp_all
  then show ?thesis by (simp add: real_sqrt_mult)
qed

lemma round_scaled:
  "round (360 * sqrt (real m)) = (isqrt (518400 * int m) + 1) div 2"
  unfolding sqrt_scaled
  using isqrt_correct [of "518400 * int m"] by (intro round_half_sqrt) simp_all

lemma lut_entry_code [code]:
  "lut_entry I Q = word_of_int ((isqrt (518400 * (int I * int I + int Q * int Q)) + 1) div 2)"
proof -
  have "int I * int I + int Q * int Q = int (I * I + Q * Q)" by simp
  then show ?thesis unfolding lut_entry_def round_scaled by (simp only:)
qed

lemma isqrt_bound:
  assumes "m \<le> 32768"
  shows "0 \<le> isqrt (518400 * int m) \<and> isqrt (518400 * int m) < 131071"
proof -
  have c: "0 \<le> isqrt (518400 * int m)"
    "isqrt (518400 * int m) * isqrt (518400 * int m) \<le> 518400 * int m"
    using isqrt_correct [of "518400 * int m"] by simp_all
  have "isqrt (518400 * int m) < 131071"
  proof (rule ccontr)
    assume "\<not> isqrt (518400 * int m) < 131071"
    then have "131071 \<le> isqrt (518400 * int m)" by simp
    then have "131071 * 131071 \<le> isqrt (518400 * int m) * isqrt (518400 * int m)"
      by (intro mult_mono) simp_all
    with c(2) show False using assms by simp
  qed
  with c(1) show ?thesis by simp
qed

lemma sum_squares_bound:
  assumes "I \<le> 128" "Q \<le> 128"
  shows "I * I + Q * Q \<le> (32768::nat)"
proof -
  have "I * I \<le> 128 * 128" "Q * Q \<le> 128 * 128" using assms by (intro mult_le_mono; simp)+
  then show ?thesis by simp
qed

lemma uint_u16_of_int:
  assumes "0 \<le> k" "k < 65536"
  shows "uint (word_of_int k :: u16) = k"
  using assms by (simp add: uint_word_of_int take_bit_int_eq_self)

lemma lut_entry_value:
  assumes "I \<le> 128" "Q \<le> 128"
  shows "uint (lut_entry I Q) = round (360 * sqrt (real (I * I + Q * Q)))"
proof -
  define r where "r = isqrt (518400 * int (I * I + Q * Q))"
  have "0 \<le> r \<and> r < 131071"
    unfolding r_def using assms by (intro isqrt_bound sum_squares_bound)
  then have "0 \<le> (r + 1) div 2" "(r + 1) div 2 < 65536" by linarith+
  then have "uint (word_of_int ((r + 1) div 2) :: u16) = (r + 1) div 2"
    by (rule uint_u16_of_int)
  then show ?thesis by (simp only: lut_entry_def round_scaled r_def)
qed

text \<open>
  The largest entry is \<open>lut_entry 128 128 = 65167\<close>, so the cast to \<^verbatim>\<open>uint16_t\<close> never
  truncates.
\<close>

lemma lut_entry_largest: "lut_entry 128 128 = 65167"
  by code_simp

text \<open>
  No product \<open>360 * sqrt (I\<^sup>2 + Q\<^sup>2)\<close> of the table lies within \<open>10\<^sup>-\<^sup>6\<close> of a rounding boundary:
  a value \<open>y\<close> that close to it (the \<^verbatim>\<open>double\<close> that \<^verbatim>\<open>360 * hypot (I, Q)\<close> computes is
  much closer) rounds to the same entry.
\<close>

lemma round_robust:
  assumes m: "m \<le> 32768" and y: "\<bar>y - 360 * sqrt (real m)\<bar> \<le> 1 / 1000000"
  shows "round y = round (360 * sqrt (real m))"
proof -
  define N where "N = 518400 * int m"
  define r where "r = isqrt N"
  define s where "s = sqrt (real_of_int N)"
  have r0: "0 \<le> r" and rN: "r * r \<le> N" "N < (r + 1) * (r + 1)"
    using isqrt_correct [of N] by (simp_all add: r_def N_def)
  have rb: "real_of_int r < 131071"
    using isqrt_bound [OF m] by (simp add: r_def N_def)
  have a: "real_of_int r \<le> s"
    using sqrt_between [OF r0 rN] by (simp_all add: s_def)
  have b: "odd r \<longrightarrow> real_of_int r + 2 / 1000000 \<le> s"
  proof
    assume odd: "odd r"
    have "even N" by (simp add: N_def)
    moreover from odd have "odd (r * r)" by simp
    ultimately have "r * r \<noteq> N" by blast
    with rN(1) have "r * r + 1 \<le> N" by simp
    then have "real_of_int (r * r + 1) \<le> real_of_int N" by (simp only: of_int_le_iff)
    then have "real_of_int r * real_of_int r + 1 \<le> real_of_int N" by simp
    moreover have "(real_of_int r + 2 / 1000000)\<^sup>2 \<le> real_of_int r * real_of_int r + 1"
      using rb by (simp add: power2_eq_square algebra_simps)
    ultimately have "(real_of_int r + 2 / 1000000)\<^sup>2 \<le> real_of_int N" by linarith
    then show "real_of_int r + 2 / 1000000 \<le> s" unfolding s_def by (rule real_le_rsqrt)
  qed
  have c: "s < real_of_int r + 1 - 2 / 1000000"
  proof -
    from rN(2) have "N + 1 \<le> (r + 1) * (r + 1)" by simp
    then have "real_of_int (N + 1) \<le> real_of_int ((r + 1) * (r + 1))" by (simp only: of_int_le_iff)
    then have "real_of_int N + 1 \<le> (real_of_int r + 1) * (real_of_int r + 1)" by (simp add: algebra_simps)
    moreover have "(real_of_int r + 1) * (real_of_int r + 1) - 1 < (real_of_int r + 1 - 2 / 1000000)\<^sup>2"
      using rb by (simp add: power2_eq_square algebra_simps)
    ultimately have "real_of_int N < (real_of_int r + 1 - 2 / 1000000)\<^sup>2" by linarith
    then show ?thesis unfolding s_def using r0 by (intro real_less_lsqrt) simp_all
  qed
  have x: "360 * sqrt (real m) = s / 2"
    by (simp only: s_def N_def sqrt_scaled)
  have d: "s / 2 - (2 / 1000000) / 2 \<le> y" "y \<le> s / 2 + (2 / 1000000) / 2"
    using y unfolding x by linarith+
  have "round y = (r + 1) div 2"
    using a b c d by (intro round_half_between [where e = "2 / 1000000" and s = s]) simp_all
  moreover have "round (360 * sqrt (real m)) = (r + 1) div 2"
    by (simp only: round_scaled r_def N_def)
  ultimately show ?thesis by simp
qed

lemma lut_entry_robust:
  assumes "I \<le> 128" "Q \<le> 128" "\<bar>y - 360 * sqrt (real (I * I + Q * Q))\<bar> \<le> 1 / 1000000"
  shows "(word_of_int (round y) :: u16) = lut_entry I Q"
  unfolding lut_entry_def
  using round_robust [OF sum_squares_bound [OF assms(1,2)] assms(3)] by simp

subsection \<open>The mapper\<close>

lemma compute_magnitude_vector_length:
  "length (compute_magnitude_vector lut data) = length data div 2"
  by (induction lut data rule: compute_magnitude_vector.induct) (simp_all add: Let_def)

lemma compute_magnitude_vector_nth:
  "k < length data div 2 \<Longrightarrow>
   compute_magnitude_vector lut data ! k =
     lut ! nat (129 * \<bar>uint (data ! (2 * k)) - 127\<bar> + \<bar>uint (data ! (2 * k + 1)) - 127\<bar>)"
proof (induction lut data arbitrary: k rule: compute_magnitude_vector.induct)
  case (1 lut i q data)
  show ?case
  proof (cases k)
    case 0
    then show ?thesis by (simp add: Let_def abs_if)
  next
    case (Suc k')
    with "1.prems" have "k' < length data div 2" by simp
    then show ?thesis using "1.IH" [of k'] Suc by simp
  qed
qed simp_all

lemma sample_offset_bound: "\<bar>uint (b :: u8) - 127\<bar> \<le> 128"
proof -
  have "uint b < 256" using uint_lt2p [of b] by simp
  moreover have "0 \<le> uint b" by (rule uint_ge_0)
  ultimately show ?thesis by linarith
qed

lemma index_bound: "a \<le> 128 \<Longrightarrow> b \<le> 128 \<Longrightarrow> 129 * a + b < (16641::int)"
  by simp

text \<open>
  \<^bold>\<open>C3.\<close> For \<open>I\<close> and \<open>Q\<close> from 0 to 128 the cell \<open>129 * I + Q\<close> of the table built by
  \<^verbatim>\<open>c_gen_magnitude_lut\<close> holds \<open>round (360 * sqrt (I\<^sup>2 + Q\<^sup>2))\<close>, the 16-bit cast losing
  nothing. \<^verbatim>\<open>compute_magnitude_vector\<close> produces one magnitude for every pair of bytes
  \<open>(i, q)\<close> of the data, and the magnitude of the \<open>k\<close>-th pair is the cell
  \<open>129 * min \<bar>i - 127\<bar> 128 + min \<bar>q - 127\<bar> 128\<close> of the table in use, an index inside the
  \<open>129 * 129\<close> cells.
\<close>

theorem magnitude_lookup:
  "(I \<le> 128 \<and> Q \<le> 128 \<longrightarrow>
      uint (c_gen_magnitude_lut ! (129 * I + Q)) = round (360 * sqrt (real (I * I + Q * Q)))) \<and>
   length (compute_magnitude_vector lut data) = length data div 2 \<and>
   (k < length data div 2 \<longrightarrow>
      compute_magnitude_vector lut data ! k =
        lut ! nat (129 * min \<bar>uint (data ! (2 * k)) - 127\<bar> 128 +
                   min \<bar>uint (data ! (2 * k + 1)) - 127\<bar> 128) \<and>
      nat (129 * min \<bar>uint (data ! (2 * k)) - 127\<bar> 128 +
           min \<bar>uint (data ! (2 * k + 1)) - 127\<bar> 128) < length c_gen_magnitude_lut)"
proof (intro conjI impI)
  assume "I \<le> 128 \<and> Q \<le> 128"
  then show "uint (c_gen_magnitude_lut ! (129 * I + Q)) = round (360 * sqrt (real (I * I + Q * Q)))"
    by (simp only: lut_nth lut_entry_value)
next
  show "length (compute_magnitude_vector lut data) = length data div 2"
    by (rule compute_magnitude_vector_length)
next
  assume k: "k < length data div 2"
  have m: "min \<bar>uint (data ! (2 * k)) - 127\<bar> 128 = \<bar>uint (data ! (2 * k)) - 127\<bar>"
    "min \<bar>uint (data ! (2 * k + 1)) - 127\<bar> 128 = \<bar>uint (data ! (2 * k + 1)) - 127\<bar>"
    using sample_offset_bound [of "data ! (2 * k)"] sample_offset_bound [of "data ! (2 * k + 1)"]
    by simp_all
  show "compute_magnitude_vector lut data ! k =
        lut ! nat (129 * min \<bar>uint (data ! (2 * k)) - 127\<bar> 128 +
                   min \<bar>uint (data ! (2 * k + 1)) - 127\<bar> 128)"
    unfolding m using k by (rule compute_magnitude_vector_nth)
  have "length c_gen_magnitude_lut = 16641"
    by (simp add: c_gen_magnitude_lut_def lut_rows_length del: upt_rec_numeral)
  moreover have "129 * \<bar>uint (data ! (2 * k)) - 127\<bar> + \<bar>uint (data ! (2 * k + 1)) - 127\<bar> < 16641"
    by (intro index_bound sample_offset_bound)
  ultimately show "nat (129 * min \<bar>uint (data ! (2 * k)) - 127\<bar> 128 +
           min \<bar>uint (data ! (2 * k + 1)) - 127\<bar> 128) < length c_gen_magnitude_lut"
    unfolding m by (simp only: nat_less_iff)
qed

lemma round_1800: "round (360 * sqrt (real (3 * 3 + 4 * 4))) = 1800"
  unfolding round_scaled by code_simp

theorem magnitude_lookup_witness:
  "uint (c_gen_magnitude_lut ! (129 * 3 + 4)) = 1800 \<and>
   length (compute_magnitude_vector c_gen_magnitude_lut [130, 131, 0, 255]) = 2 \<and>
   compute_magnitude_vector c_gen_magnitude_lut [130, 131, 0, 255] ! 0 = c_gen_magnitude_lut ! (129 * 3 + 4) \<and>
   compute_magnitude_vector c_gen_magnitude_lut [130, 131, 0, 255] ! 1 = c_gen_magnitude_lut ! (129 * 127 + 128)"
  using magnitude_lookup [of 3 4 c_gen_magnitude_lut "[130, 131, 0, 255]" 0]
    magnitude_lookup [of 3 4 c_gen_magnitude_lut "[130, 131, 0, 255]" 1]
  by (simp add: round_1800 nat_add_distrib nat_mult_distrib)

end
